theory Spec2Isabelle
  imports Complex_Main
begin

section \<open>Jam Buddy: data model\<close>

text \<open>
  A shallow embedding of \<^verbatim>\<open>jam-buddy/script.js\<close>. JavaScript numbers are modelled
  exactly: MIDI numbers and quantized steps as \<^typ>\<open>int\<close>, list indices and timer
  handles as \<^typ>\<open>nat\<close>, seconds and milliseconds as \<^typ>\<open>rat\<close>. The global
  variables of the script are the first fields of the record \<open>state\<close>; the browser
  (timer queue, clock, attached listeners), the synthesizer and the model are the
  remaining fields. The highlight classes of the keys and the dial graphics are not
  modelled.
\<close>

record 'p pitched =
  pitch :: 'p

text \<open>The objects pushed onto \<^verbatim>\<open>userNotes\<close> by \<^verbatim>\<open>playNote\<close>.\<close>

record user_note = "int pitched" +
  startTime :: rat
  endTime :: rat

text \<open>The notes of the unquantized sequence built by \<^verbatim>\<open>triggerAIResponse\<close>.\<close>

record seq_note = user_note +
  velocity :: nat

record note_sequence =
  "notes" :: "seq_note list"
  totalTime :: rat

text \<open>
  A note of the sequence the model returns. The pitch is whatever number the model
  produced; the script does arithmetic on it without rounding.
\<close>

record gen_note = "rat pitched" +
  quantizedStartStep :: int
  quantizedEndStep :: int

text \<open>
  One call \<^verbatim>\<open>model.continueSequence(mm.sequences.quantizeNoteSequence(seq, spq), steps, temperature)\<close>.
  Both functions belong to the Magenta library; the call is recorded with its arguments.
\<close>

record model_call =
  sequence :: note_sequence
  stepsPerQuarter :: nat
  steps :: nat
  temperature :: rat

datatype duration = Seconds rat | Notation string

datatype synth_call =
    TriggerAttack "string option"
  | TriggerRelease "string option"
  | TriggerAttackRelease "string option" duration

text \<open>The callbacks the script hands to \<^verbatim>\<open>setTimeout\<close>.\<close>

datatype timer_action =
    TriggerAI
  | PlayGenerated gen_note rat
  | ResetTurn
  | ClearVisual int
  | RemoveAIClass int

record timer =
  tid :: nat
  due :: rat
  action :: timer_action

datatype status_text =
    StatusReady
  | StatusWillFinishThenOff
  | StatusOffPlayFreely
  | StatusAiOn
  | StatusListening
  | StatusYourTurn
  | StatusOffNoReplies
  | StatusError

record state =
  aiEnabled :: bool
  isAIPlaying :: bool
  userNotes :: "user_note list"
  inactivityTimer :: "nat option"
  activeNotes :: "int list"
  visualTimeouts :: "int \<rightharpoonup> nat"
  lastKeyPressed :: "nat option"
  status :: status_text
  keyboardListening :: bool
  pianoDisabled :: bool
  timers :: "timer list"
  nextTimerId :: nat
  clock :: rat
  synthLog :: "synth_call list"
  modelCalls :: "model_call list"
  inFlight :: nat

section \<open>Constants of the script\<close>

definition INACTIVITY_THRESHOLD :: rat where
  "INACTIVITY_THRESHOLD = 2000"

definition NOTES :: "string list" where
  "NOTES = [''C4'', ''C#4'', ''D4'', ''D#4'', ''E4'', ''F4'', ''F#4'', ''G4'', ''G#4'',
            ''A4'', ''A#4'', ''B4'', ''C5'', ''C#5'', ''D5'', ''D#5'', ''E5'', ''F5'']"

definition MIDI_NUMS :: "int list" where
  "MIDI_NUMS = [60, 61, 62, 63, 64, 65, 66, 67, 68, 69, 70, 71, 72, 73, 74, 75, 76, 77]"

definition KEY_MAP :: "(string \<times> nat) list" where
  "KEY_MAP = [(''a'', 0), (''w'', 1), (''s'', 2), (''e'', 3), (''d'', 4), (''f'', 5),
              (''t'', 6), (''g'', 7), (''y'', 8), (''h'', 9), (''u'', 10), (''j'', 11),
              (''k'', 12), (''o'', 13), (''l'', 14), (''p'', 15), ('';'', 16),
              ([CHR 0x27], 17)]"

definition msPerStep :: int where
  "msPerStep = 125"

section \<open>Browser primitives\<close>

text \<open>\<^verbatim>\<open>Array.prototype.indexOf\<close>: \<open>None\<close> stands for -1.\<close>

fun indexOf :: "'a list \<Rightarrow> 'a \<Rightarrow> nat option" where
  "indexOf [] x = None"
| "indexOf (y # ys) x = (if y = x then Some 0 else map_option Suc (indexOf ys x))"

text \<open>
  \<^verbatim>\<open>Array.prototype.reduce\<close> without an initial value: the first element starts the
  accumulator and the scan goes on from the second; on an empty array it throws
  (\<open>None\<close>).
\<close>

definition reduce :: "('a \<Rightarrow> 'a \<Rightarrow> 'a) \<Rightarrow> 'a list \<Rightarrow> 'a option" where
  "reduce f xs = (case xs of [] \<Rightarrow> None | x # rest \<Rightarrow> Some (foldl f x rest))"

text \<open>
  \<^verbatim>\<open>setTimeout\<close> queues the callback with a fresh handle, due after the delay (a
  negative delay counts as 0), and returns the handle. \<^verbatim>\<open>clearTimeout\<close> drops the
  timer with the given handle, if there is one; \<open>None\<close> is \<^verbatim>\<open>undefined\<close>.
\<close>

definition setTimeout :: "timer_action \<Rightarrow> rat \<Rightarrow> state \<Rightarrow> nat \<times> state" where
  "setTimeout act delay s =
     (nextTimerId s,
      s\<lparr>timers := timers s @ [\<lparr>tid = nextTimerId s, due = clock s + max 0 delay, action = act\<rparr>],
        nextTimerId := Suc (nextTimerId s)\<rparr>)"

definition clearTimeout :: "nat option \<Rightarrow> state \<Rightarrow> state" where
  "clearTimeout h s =
     (case h of None \<Rightarrow> s
      | Some i \<Rightarrow> s\<lparr>timers := filter (\<lambda>t. tid t \<noteq> i) (timers s)\<rparr>)"

definition setStatus :: "status_text \<Rightarrow> state \<Rightarrow> state" where
  "setStatus text s = s\<lparr>status := text\<rparr>"

text \<open>\<^verbatim>\<open>Tone.now()\<close>, in seconds.\<close>

definition Tone_now :: "state \<Rightarrow> rat" where
  "Tone_now s = clock s / 1000"

section \<open>Note handling\<close>

definition playNote :: "nat \<Rightarrow> bool \<Rightarrow> state \<Rightarrow> state" where
  "playNote index isAI s =
     (if \<not> isAI \<and> isAIPlaying s then s
      else
        let note = NOTES ! index;
            midi = MIDI_NUMS ! index;
            s1 = (if isAI then s\<lparr>synthLog := synthLog s @ [TriggerAttackRelease (Some note) (Notation ''8n'')]\<rparr>
                  else if midi \<notin> set (activeNotes s)
                       then s\<lparr>synthLog := synthLog s @ [TriggerAttack (Some note)],
                              activeNotes := activeNotes s @ [midi]\<rparr>
                       else s);
            s2 = (if isAI then snd (setTimeout (RemoveAIClass midi) 200 s1) else s1)
        in if \<not> isAI
           then let s3 = clearTimeout (inactivityTimer s2) s2
                in s3\<lparr>userNotes := userNotes s3 @
                        [\<lparr>pitch = midi, startTime = Tone_now s3, endTime = Tone_now s3 + 1 / 2\<rparr>]\<rparr>
           else s2)"

definition playNoteWithDuration :: "nat \<Rightarrow> rat \<Rightarrow> state \<Rightarrow> state" where
  "playNoteWithDuration index durationSec s =
     (let note = NOTES ! index;
          midi = MIDI_NUMS ! index;
          s1 = s\<lparr>synthLog := synthLog s @ [TriggerAttackRelease (Some note) (Seconds durationSec)]\<rparr>;
          s2 = (case visualTimeouts s1 midi of None \<Rightarrow> s1 | Some h \<Rightarrow> clearTimeout (Some h) s1);
          (timeoutId, s3) = setTimeout (ClearVisual midi) (durationSec * 1000) s2
      in s3\<lparr>visualTimeouts := (visualTimeouts s3)(midi \<mapsto> timeoutId)\<rparr>)"

text \<open>
  \<^verbatim>\<open>releaseNote\<close> is also called with \<^verbatim>\<open>lastKeyPressed\<close>, which may be \<^verbatim>\<open>null\<close>
  (\<open>None\<close>): then \<^verbatim>\<open>MIDI_NUMS[index]\<close> is \<^verbatim>\<open>undefined\<close>, no note is released, and
  the rest of the function runs.
\<close>

definition midiAt :: "nat option \<Rightarrow> int option" where
  "midiAt index =
     (case index of None \<Rightarrow> None
      | Some i \<Rightarrow> if i < length MIDI_NUMS then Some (MIDI_NUMS ! i) else None)"

definition noteAt :: "nat option \<Rightarrow> string option" where
  "noteAt index =
     (case index of None \<Rightarrow> None
      | Some i \<Rightarrow> if i < length NOTES then Some (NOTES ! i) else None)"

definition releaseNote :: "nat option \<Rightarrow> state \<Rightarrow> state" where
  "releaseNote index s =
     (if isAIPlaying s then s
      else
        let s1 = (case midiAt index of
                    None \<Rightarrow> s
                  | Some midi \<Rightarrow>
                      if midi \<in> set (activeNotes s)
                      then s\<lparr>synthLog := synthLog s @ [TriggerRelease (noteAt index)],
                             activeNotes := removeAll midi (activeNotes s)\<rparr>
                      else s)
        in if activeNotes s1 = [] \<and> aiEnabled s1
           then let s2 = clearTimeout (inactivityTimer s1) s1;
                    (h, s3) = setTimeout TriggerAI INACTIVITY_THRESHOLD s2
                in s3\<lparr>inactivityTimer := Some h\<rparr>
           else s1)"

definition disableKeyboard :: "state \<Rightarrow> state" where
  "disableKeyboard s =
     s\<lparr>keyboardListening := False,
       pianoDisabled := True,
       synthLog := synthLog s @
         map (\<lambda>midi. TriggerRelease (noteAt (indexOf MIDI_NUMS midi))) (activeNotes s),
       activeNotes := []\<rparr>"

definition enableKeyboard :: "state \<Rightarrow> state" where
  "enableKeyboard s = s\<lparr>keyboardListening := True, pianoDisabled := False\<rparr>"

definition handleKeyDown :: "string \<Rightarrow> bool \<Rightarrow> state \<Rightarrow> state" where
  "handleKeyDown key repeat s =
     (case map_of KEY_MAP key of
        Some i \<Rightarrow> if \<not> repeat then playNote i False s else s
      | None \<Rightarrow> s)"

definition handleKeyUp :: "string \<Rightarrow> state \<Rightarrow> state" where
  "handleKeyUp key s =
     (case map_of KEY_MAP key of
        Some i \<Rightarrow> releaseNote (Some i) s
      | None \<Rightarrow> s)"

section \<open>The AI toggle\<close>

definition aiToggle_change :: "bool \<Rightarrow> state \<Rightarrow> state" where
  "aiToggle_change checked s =
     (let s1 = s\<lparr>aiEnabled := checked\<rparr>
      in if \<not> aiEnabled s1
         then let s2 = clearTimeout (inactivityTimer s1) s1
              in setStatus (if isAIPlaying s2 then StatusWillFinishThenOff else StatusOffPlayFreely) s2
         else
           let s2 = s1\<lparr>userNotes := []\<rparr>;
               s3 = setStatus StatusAiOn s2
           in if activeNotes s3 = [] \<and> length (userNotes s3) > 0
              then let s4 = clearTimeout (inactivityTimer s3) s3;
                       (h, s5) = setTimeout TriggerAI INACTIVITY_THRESHOLD s4
                   in s5\<lparr>inactivityTimer := Some h\<rparr>
              else s3)"

section \<open>The AI turn\<close>

definition unquantizedSequence :: "user_note list \<Rightarrow> note_sequence" where
  "unquantizedSequence ns =
     \<lparr>notes = map (\<lambda>(n, i). \<lparr>pitch = pitch n,
                              startTime = of_nat i * (1 / 2),
                              endTime = (of_nat i + 1) * (1 / 2),
                              velocity = 80\<rparr>)
                   (zip ns [0 ..< length ns]),
      totalTime = of_nat (length ns) * (1 / 2)\<rparr>"

text \<open>
  \<^verbatim>\<open>triggerAIResponse\<close> up to its \<^verbatim>\<open>await\<close>: the guard, the entry into the AI
  turn, and the call of the model.
\<close>

definition triggerAIResponse :: "state \<Rightarrow> state" where
  "triggerAIResponse s =
     (if \<not> aiEnabled s \<or> length (userNotes s) = 0 \<or> isAIPlaying s then s
      else
        let s1 = s\<lparr>isAIPlaying := True\<rparr>;
            s2 = disableKeyboard s1;
            s3 = setStatus StatusListening s2
        in s3\<lparr>modelCalls := modelCalls s3 @
                 [\<lparr>sequence = unquantizedSequence (userNotes s3), stepsPerQuarter = 4,
                   steps = 50, temperature = 11 / 10\<rparr>],
               inFlight := Suc (inFlight s3)\<rparr>)"

text \<open>The body of \<^verbatim>\<open>result.notes.forEach\<close>, with \<^verbatim>\<open>totalDuration\<close> threaded through.\<close>

fun scheduleNotes :: "gen_note list \<Rightarrow> int \<Rightarrow> state \<Rightarrow> int \<times> state" where
  "scheduleNotes [] totalDuration s = (totalDuration, s)"
| "scheduleNotes (note # rest) totalDuration s =
     (let startTimeMs = quantizedStartStep note * msPerStep;
          endTimeMs = quantizedEndStep note * msPerStep;
          durationMs = endTimeMs - startTimeMs;
          durationSec = of_int durationMs / 1000;
          s1 = snd (setTimeout (PlayGenerated note durationSec) (of_int startTimeMs) s)
      in scheduleNotes rest (if endTimeMs > totalDuration then endTimeMs else totalDuration) s1)"

definition closestMidi :: "rat \<Rightarrow> int option" where
  "closestMidi p =
     reduce (\<lambda>prev curr. if \<bar>of_int curr - p\<bar> < \<bar>of_int prev - p\<bar> then curr else prev) MIDI_NUMS"

text \<open>The callback of a playback timer.\<close>

definition playGenerated :: "gen_note \<Rightarrow> rat \<Rightarrow> state \<Rightarrow> state" where
  "playGenerated note durationSec s =
     (case closestMidi (pitch note) of
        None \<Rightarrow> s
      | Some closest \<Rightarrow>
          (case indexOf MIDI_NUMS closest of
             None \<Rightarrow> s
           | Some index \<Rightarrow> playNoteWithDuration index durationSec s))"

text \<open>The callback of the timer that ends the AI turn.\<close>

definition resetTurn :: "state \<Rightarrow> state" where
  "resetTurn s =
     (let s1 = s\<lparr>userNotes := [], isAIPlaying := False\<rparr>;
          s2 = enableKeyboard s1
      in setStatus (if aiEnabled s2 then StatusYourTurn else StatusOffNoReplies) s2)"

text \<open>
  \<^verbatim>\<open>triggerAIResponse\<close> after its \<^verbatim>\<open>await\<close>: \<open>Inr\<close> carries the notes of the sequence
  the model returned, \<open>Inl\<close> the exception that the \<^verbatim>\<open>catch\<close> block receives.
\<close>

definition triggerAIResponse_resume :: "string + gen_note list \<Rightarrow> state \<Rightarrow> state" where
  "triggerAIResponse_resume result s =
     (case result of
        Inr resultNotes \<Rightarrow>
          (let (totalDuration, s1) = scheduleNotes resultNotes 0 s
           in snd (setTimeout ResetTurn (of_int (totalDuration + 500)) s1))
      | Inl e \<Rightarrow>
          (let s1 = s\<lparr>isAIPlaying := False, userNotes := []\<rparr>;
               s2 = enableKeyboard s1
           in setStatus StatusError s2))"

section \<open>The event loop\<close>

text \<open>
  What the browser can deliver once the Start button has set the page up. A key or
  pointer event names a key of the piano (an index of \<^verbatim>\<open>NOTES\<close>); the keyboard events
  reach their handlers only while the listeners are attached. \<open>PointerUp\<close> runs the
  handler of the key and then, as the event bubbles, the one of the window;
  \<open>WindowPointerUp\<close> is a release outside the keys. A click on the dial arrives as the
  \<open>ToggleChange\<close> it dispatches. \<open>TimerFire\<close> runs a queued callback that is due,
  \<open>ModelReturn\<close> resumes a suspended \<^verbatim>\<open>triggerAIResponse\<close>, \<open>Advance\<close> lets time pass.
\<close>

datatype event =
    KeyDown string bool
  | KeyUp string
  | PointerDown nat
  | PointerEnter nat bool
  | PointerUp nat
  | WindowPointerUp
  | ToggleChange bool
  | TimerFire nat
  | ModelReturn "string + gen_note list"
  | Advance rat

definition window_pointerup :: "state \<Rightarrow> state" where
  "window_pointerup s =
     (if lastKeyPressed s \<noteq> None
      then (releaseNote (lastKeyPressed s) s)\<lparr>lastKeyPressed := None\<rparr>
      else s)"

definition runAction :: "timer_action \<Rightarrow> state \<Rightarrow> state" where
  "runAction a s =
     (case a of
        TriggerAI \<Rightarrow> triggerAIResponse s
      | PlayGenerated note durationSec \<Rightarrow> playGenerated note durationSec s
      | ResetTurn \<Rightarrow> resetTurn s
      | ClearVisual midi \<Rightarrow> s\<lparr>visualTimeouts := (visualTimeouts s)(midi := None)\<rparr>
      | RemoveAIClass midi \<Rightarrow> s)"

definition fireTimer :: "nat \<Rightarrow> state \<Rightarrow> state" where
  "fireTimer i s =
     (case find (\<lambda>t. tid t = i) (timers s) of
        None \<Rightarrow> s
      | Some t \<Rightarrow>
          if due t \<le> clock s
          then runAction (action t) (s\<lparr>timers := filter (\<lambda>u. tid u \<noteq> i) (timers s)\<rparr>)
          else s)"

definition step :: "event \<Rightarrow> state \<Rightarrow> state" where
  "step e s =
     (case e of
        KeyDown key repeat \<Rightarrow> if keyboardListening s then handleKeyDown key repeat s else s
      | KeyUp key \<Rightarrow> if keyboardListening s then handleKeyUp key s else s
      | PointerDown index \<Rightarrow>
          if index < length NOTES then playNote index False (s\<lparr>lastKeyPressed := Some index\<rparr>) else s
      | PointerEnter index buttons \<Rightarrow>
          if index < length NOTES \<and> buttons
          then playNote index False ((releaseNote (lastKeyPressed s) s)\<lparr>lastKeyPressed := Some index\<rparr>)
          else s
      | PointerUp index \<Rightarrow>
          if index < length NOTES
          then window_pointerup ((releaseNote (Some index) s)\<lparr>lastKeyPressed := None\<rparr>)
          else s
      | WindowPointerUp \<Rightarrow> window_pointerup s
      | ToggleChange checked \<Rightarrow> aiToggle_change checked s
      | TimerFire i \<Rightarrow> fireTimer i s
      | ModelReturn result \<Rightarrow>
          if inFlight s > 0 then triggerAIResponse_resume result (s\<lparr>inFlight := inFlight s - 1\<rparr>) else s
      | Advance d \<Rightarrow> if d \<ge> 0 then s\<lparr>clock := clock s + d\<rparr> else s)"

definition run :: "event list \<Rightarrow> state \<Rightarrow> state" where
  "run es s = foldl (\<lambda>s e. step e s) s es"

text \<open>The state when the Start button has finished: the globals as declared, listeners attached.\<close>

definition init :: state where
  "init = \<lparr>aiEnabled = True, isAIPlaying = False, userNotes = [], inactivityTimer = None,
           activeNotes = [], visualTimeouts = Map.empty, lastKeyPressed = None,
           status = StatusReady, keyboardListening = True, pianoDisabled = False,
           timers = [], nextTimerId = 0, clock = 0, synthLog = [], modelCalls = [],
           inFlight = 0\<rparr>"

definition reachable :: "state \<Rightarrow> bool" where
  "reachable s = (\<exists>es. s = run es init)"

section \<open>Quantities and invariants of the event loop\<close>

text \<open>The pending end-of-turn timers and the pending inactivity timers.\<close>

definition resetTimers :: "state \<Rightarrow> timer list" where
  "resetTimers s = filter (\<lambda>t. action t = ResetTurn) (timers s)"

definition triggerTimers :: "state \<Rightarrow> timer list" where
  "triggerTimers s = filter (\<lambda>t. action t = TriggerAI) (timers s)"

text \<open>
  The timer queue is well formed: handles are unique and below the next fresh one; the
  pending inactivity timers are exactly the timers that \<^verbatim>\<open>inactivityTimer\<close> names;
  a handle stored in \<^verbatim>\<open>visualTimeouts\<close> names nothing but the highlight timer of its
  key. So \<^verbatim>\<open>clearTimeout\<close> on either variable never cancels a timer of another kind.
\<close>

definition timersWf :: "state \<Rightarrow> bool" where
  "timersWf s \<longleftrightarrow>
     distinct (map tid (timers s)) \<and>
     (\<forall>t \<in> set (timers s). tid t < nextTimerId s) \<and>
     (\<forall>i. inactivityTimer s = Some i \<longrightarrow> i < nextTimerId s) \<and>
     (\<forall>t \<in> set (timers s). (action t = TriggerAI) = (inactivityTimer s = Some (tid t))) \<and>
     (\<forall>m h. visualTimeouts s m = Some h \<longrightarrow>
        h < nextTimerId s \<and> (\<forall>t \<in> set (timers s). tid t = h \<longrightarrow> action t = ClearVisual m))"

text \<open>
  The AI turns under way: the calls of the model that await their answer and the
  pending end-of-turn timers.
\<close>

definition turnCount :: "state \<Rightarrow> nat" where
  "turnCount s = inFlight s + length (resetTimers s)"

text \<open>The invariant of the reachable states.\<close>

definition Inv :: "state \<Rightarrow> bool" where
  "Inv s \<longleftrightarrow> timersWf s \<and>
     (isAIPlaying s \<longrightarrow> activeNotes s = []) \<and>
     set (activeNotes s) \<subseteq> set MIDI_NUMS \<and>
     turnCount s = (if isAIPlaying s then 1 else 0)"

text \<open>
  The timer that the \<^verbatim>\<open>forEach\<close> of \<^verbatim>\<open>triggerAIResponse\<close> queues for a generated
  note, given the clock and the pair of the fresh handle and the note.
\<close>

definition playbackTimer :: "rat \<Rightarrow> nat \<times> gen_note \<Rightarrow> timer" where
  "playbackTimer now kn =
     \<lparr>tid = fst kn,
      due = now + max 0 (of_int (quantizedStartStep (snd kn) * msPerStep)),
      action = PlayGenerated (snd kn)
        (of_int (quantizedEndStep (snd kn) * msPerStep - quantizedStartStep (snd kn) * msPerStep) / 1000)\<rparr>"

text \<open>\<^verbatim>\<open>endTimeMs\<close> of a generated note.\<close>

definition endMs :: "gen_note \<Rightarrow> int" where
  "endMs n = quantizedEndStep n * msPerStep"

text \<open>
  The value of \<^verbatim>\<open>totalDuration\<close> when the \<^verbatim>\<open>forEach\<close> has run over the notes (it
  does not depend on the state), and the end-of-turn timer queued after it.
\<close>

definition totalDurationOf :: "gen_note list \<Rightarrow> int" where
  "totalDurationOf ns = fst (scheduleNotes ns 0 init)"

definition resetTimerOf :: "gen_note list \<Rightarrow> state \<Rightarrow> timer" where
  "resetTimerOf ns s =
     \<lparr>tid = nextTimerId s + length ns,
      due = clock s + of_int (totalDurationOf ns + 500),
      action = ResetTurn\<rparr>"

text \<open>
  The largest end offset of the generated notes in milliseconds, as the specification
  words it, taken as 0 when there are no notes: the quantity the settle delay is added
  to. It is compared with \<open>totalDurationOf\<close>, which is what the code computes.
\<close>

definition maxEndOffsetMs :: "gen_note list \<Rightarrow> int" where
  "maxEndOffsetMs ns = (if ns = [] then 0 else Max (endMs ` set ns))"

text \<open>
  The AI turn is under way, the model has answered, and no end-of-turn timer is due
  before \<open>D\<close>.
\<close>

definition heldUntil :: "rat \<Rightarrow> state \<Rightarrow> bool" where
  "heldUntil D s \<longleftrightarrow> isAIPlaying s \<and> inFlight s = 0 \<and> (\<forall>t \<in> set (resetTimers s). D \<le> due t)"

section \<open>Example inputs\<close>

text \<open>A generated note whose pitch lies midway between two keys.\<close>

definition tieNote :: gen_note where
  "tieNote = \<lparr>pitch = 127 / 2, quantizedStartStep = 0, quantizedEndStep = 4\<rparr>"

text \<open>The human has played and released C4 and then E4 (with the mouse).\<close>

definition twoNotesPlayed :: state where
  "twoNotesPlayed = run [PointerDown 0, PointerUp 0, PointerDown 4, PointerUp 4] init"

text \<open>The human has played and released C4 while the AI was switched off.\<close>

definition playedWhileOff :: state where
  "playedWhileOff = run [ToggleChange False, PointerDown 0, PointerUp 0] init"

text \<open>An AI turn has started on one recorded note and the model has not answered yet.\<close>

definition awaitingReply :: state where
  "awaitingReply = run [PointerDown 0, PointerUp 0, Advance 2000, TimerFire 0] init"

text \<open>Three notes are recorded and C4 and E4 are still held down.\<close>

definition keysHeld :: state where
  "keysHeld = run [PointerDown 7, PointerUp 7, KeyDown ''a'' False, KeyDown ''d'' False, Advance 2000] init"

text \<open>A generated note from step 2 to step 6.\<close>

definition stepsTwoToSix :: gen_note where
  "stepsTwoToSix = \<lparr>pitch = 62, quantizedStartStep = 2, quantizedEndStep = 6\<rparr>"

text \<open>The reply of the scenario: D4 on steps 0 to 4, F4 on steps 4 to 8.\<close>

definition twoNoteReply :: "gen_note list" where
  "twoNoteReply = [\<lparr>pitch = 62, quantizedStartStep = 0, quantizedEndStep = 4\<rparr>,
                   \<lparr>pitch = 65, quantizedStartStep = 4, quantizedEndStep = 8\<rparr>]"

text \<open>
  The human presses C4 with the mouse during an AI turn (which is ignored), the turn
  ends, and the button is still down.
\<close>

definition heldThroughTurn :: state where
  "heldThroughTurn =
     run [ModelReturn (Inr []), PointerDown 0, Advance 500, TimerFire 1] awaitingReply"

text \<open>The model has answered with the two-note reply; playback is queued.\<close>

definition replyScheduled :: state where
  "replyScheduled = step (ModelReturn (Inr twoNoteReply)) awaitingReply"

text \<open>
  The AI is switched off during that playback; the reply plays to its end, the turn
  ends, the human plays and releases C4 and waits five seconds.
\<close>

definition offAfterTurn :: state where
  "offAfterTurn =
     run [Advance 500, TimerFire 1, TimerFire 2, Advance 1000, TimerFire 3,
          KeyDown ''a'' False, KeyUp ''a'', Advance 5000, TimerFire 0, TimerFire 6]
       (step (ToggleChange False) replyScheduled)"

section \<open>Nearest playable pitch\<close>

lemma closest_scan:
  fixes d :: "int \<Rightarrow> rat"
  assumes "sorted_wrt (<) (a # xs)"
  shows "foldl (\<lambda>prev curr. if d curr < d prev then curr else prev) a xs \<in> set (a # xs) \<and>
         (\<forall>m \<in> set (a # xs).
            d (foldl (\<lambda>prev curr. if d curr < d prev then curr else prev) a xs) \<le> d m \<and>
            (d m = d (foldl (\<lambda>prev curr. if d curr < d prev then curr else prev) a xs)
               \<longrightarrow> foldl (\<lambda>prev curr. if d curr < d prev then curr else prev) a xs \<le> m))"
  using assms
proof (induction xs arbitrary: a)
  case Nil
  then show ?case by simp
next
  case (Cons x xs)
  let ?f = "\<lambda>prev curr. if d curr < d prev then curr else prev"
  show ?case
  proof (cases "d x < d a")
    case True
    have srt: "sorted_wrt (<) (x # xs)" using Cons.prems by simp
    from Cons.IH[OF srt] have ih: "foldl ?f x xs \<in> set (x # xs)"
      "\<forall>m\<in>set (x # xs). d (foldl ?f x xs) \<le> d m \<and> (d m = d (foldl ?f x xs) \<longrightarrow> foldl ?f x xs \<le> m)"
      by blast+
    have eq: "foldl ?f a (x # xs) = foldl ?f x xs" using True by simp
    have "d (foldl ?f x xs) \<le> d x" using ih(2) by simp
    then have "d (foldl ?f x xs) < d a" using True by linarith
    then show ?thesis unfolding eq using ih by auto
  next
    case False
    have srt: "sorted_wrt (<) (a # xs)" using Cons.prems by auto
    from Cons.IH[OF srt] have ih: "foldl ?f a xs \<in> set (a # xs)"
      "\<forall>m\<in>set (a # xs). d (foldl ?f a xs) \<le> d m \<and> (d m = d (foldl ?f a xs) \<longrightarrow> foldl ?f a xs \<le> m)"
      by blast+
    have eq: "foldl ?f a (x # xs) = foldl ?f a xs" using False by simp
    have ra: "d (foldl ?f a xs) \<le> d a" "d a = d (foldl ?f a xs) \<longrightarrow> foldl ?f a xs \<le> a"
      using ih(2) by simp_all
    have ax: "a < x" using Cons.prems by simp
    have "d (foldl ?f a xs) \<le> d x" using ra(1) False by linarith
    moreover have "d x = d (foldl ?f a xs) \<longrightarrow> foldl ?f a xs \<le> x"
      using ra False ax by auto
    ultimately show ?thesis unfolding eq using ih by auto
  qed
qed

lemma MIDI_NUMS_sorted: "sorted_wrt (<) MIDI_NUMS"
  by (simp add: MIDI_NUMS_def)

lemma set_MIDI_NUMS: "set MIDI_NUMS = {60..77}"
  apply (rule set_eqI)
  apply (simp add: MIDI_NUMS_def)
  apply presburger
  done

lemma MIDI_NUMS_Cons: "\<exists>a xs. MIDI_NUMS = a # xs"
  by (simp add: MIDI_NUMS_def)

lemma indexOf_nth: "indexOf xs x = Some i \<Longrightarrow> i < length xs \<and> xs ! i = x"
  by (induction xs arbitrary: i) (auto split: if_splits)

lemma indexOf_mem: "x \<in> set xs \<Longrightarrow> \<exists>i. indexOf xs x = Some i"
  by (induction xs) auto

lemma closestMidi_Some: "\<exists>r. closestMidi p = Some r"
  using MIDI_NUMS_Cons unfolding closestMidi_def reduce_def by (auto split: list.split)

lemma closestMidi_props:
  assumes "closestMidi p = Some r"
  shows "r \<in> set MIDI_NUMS"
    and "\<forall>m \<in> set MIDI_NUMS. \<bar>of_int r - p\<bar> \<le> \<bar>of_int m - p\<bar> \<and> (\<bar>of_int m - p\<bar> = \<bar>of_int r - p\<bar> \<longrightarrow> r \<le> m)"
proof -
  obtain a xs where ax: "MIDI_NUMS = a # xs" using MIDI_NUMS_Cons by blast
  have srt: "sorted_wrt (<) (a # xs)" using MIDI_NUMS_sorted ax by simp
  have r: "r = foldl (\<lambda>prev curr. if \<bar>of_int curr - p\<bar> < \<bar>of_int prev - p\<bar> then curr else prev) a xs"
    using assms unfolding closestMidi_def reduce_def ax by simp
  from closest_scan[OF srt, of "\<lambda>m. \<bar>of_int m - p\<bar>"] show "r \<in> set MIDI_NUMS"
    and "\<forall>m \<in> set MIDI_NUMS. \<bar>of_int r - p\<bar> \<le> \<bar>of_int m - p\<bar> \<and> (\<bar>of_int m - p\<bar> = \<bar>of_int r - p\<bar> \<longrightarrow> r \<le> m)"
    unfolding r ax by blast+
qed

text \<open>
  Claim C2. The playable pitches are 60 to 77. The playback callback of a generated
  note plays the key whose MIDI number is nearest to the generated pitch; of two keys
  at the same distance the lower one, which the ascending scan meets first, is kept.
  Pitch 58 resolves to 60, pitch 79 to 77, and the midpoint 63.5 to 63.
\<close>

theorem closestMidi_nearest_first:
  "set MIDI_NUMS = {60..77} \<and>
   (\<exists>r i. closestMidi (pitch note) = Some r \<and> r \<in> set MIDI_NUMS \<and>
      (\<forall>m \<in> set MIDI_NUMS.
         \<bar>of_int r - pitch note\<bar> \<le> \<bar>of_int m - pitch note\<bar> \<and>
         (\<bar>of_int m - pitch note\<bar> = \<bar>of_int r - pitch note\<bar> \<longrightarrow> r \<le> m)) \<and>
      indexOf MIDI_NUMS r = Some i \<and> MIDI_NUMS ! i = r \<and>
      playGenerated note durationSec s = playNoteWithDuration i durationSec s) \<and>
   closestMidi 58 = Some 60 \<and> closestMidi 79 = Some 77 \<and> closestMidi (127 / 2) = Some 63"
proof -
  obtain r where r: "closestMidi (pitch note) = Some r"
    using closestMidi_Some by blast
  note props = closestMidi_props[OF r]
  obtain i where i: "indexOf MIDI_NUMS r = Some i"
    using indexOf_mem[OF props(1)] by blast
  have nth: "MIDI_NUMS ! i = r" using indexOf_nth[OF i] by simp
  have play: "playGenerated note durationSec s = playNoteWithDuration i durationSec s"
    by (simp add: playGenerated_def r i)
  have ex: "closestMidi 58 = Some 60" "closestMidi 79 = Some 77" "closestMidi (127 / 2) = Some 63"
    by (simp_all add: closestMidi_def reduce_def MIDI_NUMS_def)
  show ?thesis
    using set_MIDI_NUMS r props i nth play ex by blast
qed

theorem closestMidi_nearest_first_witness:
  "closestMidi (pitch tieNote) = Some 63 \<and>
   \<bar>of_int 63 - pitch tieNote\<bar> = \<bar>of_int 64 - pitch tieNote\<bar> \<and>
   synthLog (playGenerated tieNote (1 / 2) init) = [TriggerAttackRelease (Some ''D#4'') (Seconds (1 / 2))]"
proof -
  from closestMidi_nearest_first[of tieNote "1 / 2" init] obtain r i where
    r: "closestMidi (pitch tieNote) = Some r" and
    i: "indexOf MIDI_NUMS r = Some i" and
    play: "playGenerated tieNote (1 / 2) init = playNoteWithDuration i (1 / 2) init" and
    mid: "closestMidi (127 / 2) = Some 63"
    by blast
  have p: "pitch tieNote = 127 / 2" by (simp add: tieNote_def)
  have r63: "r = 63" using r mid p by simp
  have i3: "i = 3" using i unfolding r63 by (simp add: MIDI_NUMS_def)
  have "synthLog (playNoteWithDuration 3 (1 / 2) init) = [TriggerAttackRelease (Some ''D#4'') (Seconds (1 / 2))]"
    by (simp add: playNoteWithDuration_def init_def NOTES_def MIDI_NUMS_def setTimeout_def Let_def)
  moreover have "closestMidi (pitch tieNote) = Some 63" using r r63 by simp
  moreover have "\<bar>of_int 63 - pitch tieNote\<bar> = \<bar>of_int 64 - pitch tieNote\<bar>"
    unfolding p by simp
  ultimately show ?thesis using i3 play by simp
qed

section \<open>Switching the AI on\<close>

text \<open>
  Claim C10. Switching the AI on empties the recorded buffer before the handler tests
  it, so the branch that would arm the inactivity timer is never taken: the whole
  effect is the new flag, the empty buffer and the status text, and the timer queue
  and the timer handle are as they were.
\<close>

theorem enable_discards_buffer:
  "step (ToggleChange True) s = setStatus StatusAiOn (s\<lparr>aiEnabled := True, userNotes := []\<rparr>) \<and>
   userNotes (step (ToggleChange True) s) = [] \<and>
   timers (step (ToggleChange True) s) = timers s \<and>
   inactivityTimer (step (ToggleChange True) s) = inactivityTimer s"
  by (simp add: step_def aiToggle_change_def setStatus_def Let_def)

theorem enable_discards_buffer_witness:
  "userNotes playedWhileOff \<noteq> [] \<and>
   userNotes (step (ToggleChange True) playedWhileOff) = [] \<and>
   timers (step (ToggleChange True) playedWhileOff) = []"
proof -
  have "timers playedWhileOff = []" "userNotes playedWhileOff \<noteq> []"
    by code_simp+
  then show ?thesis
    using enable_discards_buffer[of playedWhileOff] by metis
qed

section \<open>The request sent to the model\<close>

text \<open>
  Claim C1. When the AI turn starts on a buffer of N recorded notes (N at least 1,
  AI enabled, no turn under way), one call of the model is issued, with 50 steps and
  temperature 1.1, on the sequence built from the buffer: it has N notes; note i has
  the pitch of the i-th recorded note, starts at i half-seconds and ends at i + 1
  half-seconds (the i-th slot of 0.5 s), and has velocity 80; the total time is N
  half-seconds.
\<close>

theorem request_sequence_shape:
  assumes "aiEnabled s" and "length (userNotes s) \<ge> 1" and "\<not> isAIPlaying s"
  shows "\<exists>c. modelCalls (triggerAIResponse s) = modelCalls s @ [c] \<and>
           steps c = 50 \<and> temperature c = 11 / 10 \<and> stepsPerQuarter c = 4 \<and>
           sequence c = unquantizedSequence (userNotes s) \<and>
           length (notes (sequence c)) = length (userNotes s) \<and>
           (\<forall>i < length (userNotes s).
              pitch (notes (sequence c) ! i) = pitch (userNotes s ! i) \<and>
              startTime (notes (sequence c) ! i) = of_nat i * (1 / 2) \<and>
              endTime (notes (sequence c) ! i) = of_nat (i + 1) * (1 / 2) \<and>
              velocity (notes (sequence c) ! i) = 80) \<and>
           totalTime (sequence c) = of_nat (length (userNotes s)) * (1 / 2)"
  using assms
  by (auto simp add: triggerAIResponse_def disableKeyboard_def setStatus_def Let_def
        unquantizedSequence_def)

theorem request_sequence_shape_witness:
  "length (userNotes twoNotesPlayed) \<ge> 1 \<and>
   (\<exists>c. modelCalls (triggerAIResponse twoNotesPlayed) = [c] \<and>
        steps c = 50 \<and> temperature c = 11 / 10 \<and>
        map pitch (notes (sequence c)) = [60, 64] \<and>
        map startTime (notes (sequence c)) = [0, 1 / 2] \<and>
        map endTime (notes (sequence c)) = [1 / 2, 1] \<and>
        map velocity (notes (sequence c)) = [80, 80] \<and>
        totalTime (sequence c) = 1)"
proof -
  have a: "aiEnabled twoNotesPlayed" by code_simp
  have b: "length (userNotes twoNotesPlayed) \<ge> 1" by code_simp
  have c: "\<not> isAIPlaying twoNotesPlayed" by code_simp
  have d: "modelCalls twoNotesPlayed = []" by code_simp
  from request_sequence_shape[OF a b c] obtain c where
    c: "modelCalls (triggerAIResponse twoNotesPlayed) = modelCalls twoNotesPlayed @ [c]"
       "steps c = 50" "temperature c = 11 / 10"
       "sequence c = unquantizedSequence (userNotes twoNotesPlayed)"
    by blast
  have f: "map pitch (notes (unquantizedSequence (userNotes twoNotesPlayed))) = [60, 64]"
      "map startTime (notes (unquantizedSequence (userNotes twoNotesPlayed))) = [0, 1 / 2]"
      "map endTime (notes (unquantizedSequence (userNotes twoNotesPlayed))) = [1 / 2, 1]"
      "map velocity (notes (unquantizedSequence (userNotes twoNotesPlayed))) = [80, 80]"
      "totalTime (unquantizedSequence (userNotes twoNotesPlayed)) = 1"
    by code_simp+
  show ?thesis using b c d f by simp
qed

section \<open>Invariants of the event loop\<close>

lemma KEY_MAP_range: "map_of KEY_MAP k = Some i \<Longrightarrow> i < 18"
  by (auto simp: KEY_MAP_def split: if_splits)

lemma length_MIDI_NUMS: "length MIDI_NUMS = 18"
  by (simp add: MIDI_NUMS_def)

lemma length_NOTES: "length NOTES = 18"
  by (simp add: NOTES_def)

subsection \<open>timersWf\<close>

lemma timersWf_releaseNote: "timersWf s \<Longrightarrow> timersWf (releaseNote idx s)"
  unfolding timersWf_def releaseNote_def clearTimeout_def setTimeout_def Let_def
  by (auto simp: distinct_map_filter split: option.splits intro: less_SucI dest: less_irrefl_nat)

lemma timersWf_playNote: "timersWf s \<Longrightarrow> timersWf (playNote idx False s)"
  unfolding timersWf_def playNote_def clearTimeout_def setTimeout_def Let_def
  by (auto simp: distinct_map_filter split: option.splits intro: less_SucI dest: less_irrefl_nat)

lemma timersWf_playNoteWithDuration: "timersWf s \<Longrightarrow> timersWf (playNoteWithDuration idx d s)"
  unfolding timersWf_def playNoteWithDuration_def clearTimeout_def setTimeout_def Let_def
  by (auto simp: distinct_map_filter split: option.splits intro: less_SucI dest: less_irrefl_nat)

lemma timersWf_playGenerated: "timersWf s \<Longrightarrow> timersWf (playGenerated n d s)"
  by (simp add: playGenerated_def timersWf_playNoteWithDuration split: option.splits)

lemma timersWf_aiToggle_change: "timersWf s \<Longrightarrow> timersWf (aiToggle_change b s)"
  unfolding timersWf_def aiToggle_change_def clearTimeout_def setTimeout_def setStatus_def Let_def
  by (auto simp: distinct_map_filter split: option.splits intro: less_SucI dest: less_irrefl_nat)

lemma timersWf_triggerAIResponse: "timersWf s \<Longrightarrow> timersWf (triggerAIResponse s)"
  unfolding timersWf_def triggerAIResponse_def disableKeyboard_def setStatus_def Let_def
  by auto

lemma timersWf_resetTurn: "timersWf s \<Longrightarrow> timersWf (resetTurn s)"
  unfolding timersWf_def resetTurn_def enableKeyboard_def setStatus_def Let_def
  by auto

lemma timersWf_setTimeout:
  "timersWf s \<Longrightarrow> a \<noteq> TriggerAI \<Longrightarrow> timersWf (snd (setTimeout a d s))"
  unfolding timersWf_def setTimeout_def
  by (auto intro: less_SucI dest: less_irrefl_nat)

lemma timersWf_scheduleNotes: "timersWf s \<Longrightarrow> timersWf (snd (scheduleNotes ns tot s))"
  by (induction ns arbitrary: tot s) (simp_all add: Let_def timersWf_setTimeout)

lemma timersWf_resume: "timersWf s \<Longrightarrow> timersWf (triggerAIResponse_resume r s)"
proof (cases r)
  case (Inl e)
  assume "timersWf s"
  then show ?thesis unfolding Inl timersWf_def triggerAIResponse_resume_def enableKeyboard_def setStatus_def Let_def
    by auto
next
  case (Inr ns)
  assume "timersWf s"
  then show ?thesis unfolding Inr triggerAIResponse_resume_def
    by (simp add: split_beta timersWf_setTimeout timersWf_scheduleNotes)
qed

lemma timersWf_frame:
  "timersWf s \<Longrightarrow> timersWf (s\<lparr>lastKeyPressed := k\<rparr>)"
  "timersWf s \<Longrightarrow> timersWf (s\<lparr>inFlight := n\<rparr>)"
  "timersWf s \<Longrightarrow> timersWf (s\<lparr>clock := c\<rparr>)"
  by (simp_all add: timersWf_def)

lemma timersWf_remove: "timersWf s \<Longrightarrow> timersWf (s\<lparr>timers := filter (\<lambda>u. tid u \<noteq> i) (timers s)\<rparr>)"
  unfolding timersWf_def by (auto simp: distinct_map_filter)

lemma timersWf_clearVisual: "timersWf s \<Longrightarrow> timersWf (s\<lparr>visualTimeouts := (visualTimeouts s)(m := None)\<rparr>)"
  unfolding timersWf_def by auto

lemma timersWf_runAction: "timersWf s \<Longrightarrow> timersWf (runAction a s)"
  by (cases a) (simp_all add: runAction_def timersWf_triggerAIResponse timersWf_playGenerated
      timersWf_resetTurn timersWf_clearVisual)

lemma timersWf_fireTimer: "timersWf s \<Longrightarrow> timersWf (fireTimer i s)"
  by (simp add: fireTimer_def timersWf_runAction timersWf_remove split: option.splits)

lemma timersWf_window_pointerup: "timersWf s \<Longrightarrow> timersWf (window_pointerup s)"
  by (simp add: window_pointerup_def timersWf_frame timersWf_releaseNote)

lemma timersWf_step: "timersWf s \<Longrightarrow> timersWf (step e s)"
  by (cases e)
     (simp_all add: step_def handleKeyDown_def handleKeyUp_def timersWf_frame timersWf_releaseNote
        timersWf_playNote timersWf_aiToggle_change timersWf_fireTimer timersWf_resume
        timersWf_window_pointerup split: option.splits)

subsection \<open>Reset timers and flags\<close>

lemma resetTimers_releaseNote: "timersWf s \<Longrightarrow> resetTimers (releaseNote idx s) = resetTimers s"
  unfolding timersWf_def resetTimers_def releaseNote_def clearTimeout_def setTimeout_def Let_def
  by (auto split: option.splits intro!: filter_cong)

lemma resetTimers_playNote: "timersWf s \<Longrightarrow> resetTimers (playNote idx False s) = resetTimers s"
  unfolding timersWf_def resetTimers_def playNote_def clearTimeout_def setTimeout_def Let_def
  by (auto split: option.splits intro!: filter_cong)

lemma resetTimers_playNoteWithDuration:
  "timersWf s \<Longrightarrow> resetTimers (playNoteWithDuration idx d s) = resetTimers s"
  unfolding timersWf_def resetTimers_def playNoteWithDuration_def clearTimeout_def setTimeout_def Let_def
  by (auto split: option.splits intro!: filter_cong)

lemma resetTimers_playGenerated: "timersWf s \<Longrightarrow> resetTimers (playGenerated n d s) = resetTimers s"
  by (simp add: playGenerated_def resetTimers_playNoteWithDuration split: option.splits)

lemma resetTimers_aiToggle_change: "timersWf s \<Longrightarrow> resetTimers (aiToggle_change b s) = resetTimers s"
  unfolding timersWf_def resetTimers_def aiToggle_change_def clearTimeout_def setTimeout_def setStatus_def Let_def
  by (auto split: option.splits intro!: filter_cong)

lemma resetTimers_triggerAIResponse: "resetTimers (triggerAIResponse s) = resetTimers s"
  by (simp add: resetTimers_def triggerAIResponse_def disableKeyboard_def setStatus_def Let_def)

lemma resetTimers_resetTurn: "resetTimers (resetTurn s) = resetTimers s"
  by (simp add: resetTimers_def resetTurn_def enableKeyboard_def setStatus_def Let_def)

lemma flags_releaseNote:
  "isAIPlaying (releaseNote idx s) = isAIPlaying s"
  "inFlight (releaseNote idx s) = inFlight s"
  "aiEnabled (releaseNote idx s) = aiEnabled s"
  "clock (releaseNote idx s) = clock s"
  "modelCalls (releaseNote idx s) = modelCalls s"
  "userNotes (releaseNote idx s) = userNotes s"
  "keyboardListening (releaseNote idx s) = keyboardListening s"
  "set (activeNotes (releaseNote idx s)) \<subseteq> set (activeNotes s)"
  by (auto simp: releaseNote_def clearTimeout_def setTimeout_def Let_def split: option.splits)

lemma flags_playNote:
  "isAIPlaying (playNote idx False s) = isAIPlaying s"
  "inFlight (playNote idx False s) = inFlight s"
  "aiEnabled (playNote idx False s) = aiEnabled s"
  "clock (playNote idx False s) = clock s"
  "modelCalls (playNote idx False s) = modelCalls s"
  "keyboardListening (playNote idx False s) = keyboardListening s"
  "set (activeNotes (playNote idx False s)) \<subseteq> insert (MIDI_NUMS ! idx) (set (activeNotes s))"
  by (auto simp: playNote_def clearTimeout_def setTimeout_def Let_def split: option.splits)

lemma playNote_in_turn: "isAIPlaying s \<Longrightarrow> playNote idx False s = s"
  by (simp add: playNote_def)

lemma releaseNote_in_turn: "isAIPlaying s \<Longrightarrow> releaseNote idx s = s"
  by (simp add: releaseNote_def)

lemma flags_playNoteWithDuration:
  "isAIPlaying (playNoteWithDuration idx d s) = isAIPlaying s"
  "inFlight (playNoteWithDuration idx d s) = inFlight s"
  "aiEnabled (playNoteWithDuration idx d s) = aiEnabled s"
  "clock (playNoteWithDuration idx d s) = clock s"
  "modelCalls (playNoteWithDuration idx d s) = modelCalls s"
  "userNotes (playNoteWithDuration idx d s) = userNotes s"
  "keyboardListening (playNoteWithDuration idx d s) = keyboardListening s"
  "activeNotes (playNoteWithDuration idx d s) = activeNotes s"
  by (auto simp: playNoteWithDuration_def clearTimeout_def setTimeout_def Let_def split: option.splits)

lemma flags_playGenerated:
  "isAIPlaying (playGenerated n d s) = isAIPlaying s"
  "inFlight (playGenerated n d s) = inFlight s"
  "aiEnabled (playGenerated n d s) = aiEnabled s"
  "clock (playGenerated n d s) = clock s"
  "modelCalls (playGenerated n d s) = modelCalls s"
  "userNotes (playGenerated n d s) = userNotes s"
  "keyboardListening (playGenerated n d s) = keyboardListening s"
  "activeNotes (playGenerated n d s) = activeNotes s"
  by (simp_all add: playGenerated_def flags_playNoteWithDuration split: option.splits)

lemma flags_aiToggle_change:
  "isAIPlaying (aiToggle_change b s) = isAIPlaying s"
  "inFlight (aiToggle_change b s) = inFlight s"
  "aiEnabled (aiToggle_change b s) = b"
  "clock (aiToggle_change b s) = clock s"
  "modelCalls (aiToggle_change b s) = modelCalls s"
  "keyboardListening (aiToggle_change b s) = keyboardListening s"
  "activeNotes (aiToggle_change b s) = activeNotes s"
  by (auto simp: aiToggle_change_def clearTimeout_def setTimeout_def setStatus_def Let_def split: option.splits)

lemma flags_resetTurn:
  "\<not> isAIPlaying (resetTurn s)"
  "inFlight (resetTurn s) = inFlight s"
  "aiEnabled (resetTurn s) = aiEnabled s"
  "clock (resetTurn s) = clock s"
  "modelCalls (resetTurn s) = modelCalls s"
  "userNotes (resetTurn s) = []"
  "keyboardListening (resetTurn s)"
  "activeNotes (resetTurn s) = activeNotes s"
  by (simp_all add: resetTurn_def enableKeyboard_def setStatus_def Let_def)

lemma triggerAIResponse_noop:
  "\<not> aiEnabled s \<or> userNotes s = [] \<or> isAIPlaying s \<Longrightarrow> triggerAIResponse s = s"
  by (auto simp: triggerAIResponse_def)

lemma flags_triggerAIResponse_start:
  assumes "aiEnabled s" "userNotes s \<noteq> []" "\<not> isAIPlaying s"
  shows "isAIPlaying (triggerAIResponse s)"
    "inFlight (triggerAIResponse s) = Suc (inFlight s)"
    "activeNotes (triggerAIResponse s) = []"
    "length (modelCalls (triggerAIResponse s)) = Suc (length (modelCalls s))"
    "\<not> keyboardListening (triggerAIResponse s)"
    "timers (triggerAIResponse s) = timers s"
  using assms by (simp_all add: triggerAIResponse_def disableKeyboard_def setStatus_def Let_def)

lemma flags_triggerAIResponse:
  "aiEnabled (triggerAIResponse s) = aiEnabled s"
  "clock (triggerAIResponse s) = clock s"
  "userNotes (triggerAIResponse s) = userNotes s"
  "timers (triggerAIResponse s) = timers s"
  by (simp_all add: triggerAIResponse_def disableKeyboard_def setStatus_def Let_def)

subsection \<open>Scheduling the reply\<close>

lemma scheduleNotes_eq:
  "scheduleNotes ns tot s =
     (foldl (\<lambda>t n. if quantizedEndStep n * msPerStep > t then quantizedEndStep n * msPerStep else t) tot ns,
      s\<lparr>timers := timers s @ map (playbackTimer (clock s)) (enumerate (nextTimerId s) ns),
        nextTimerId := nextTimerId s + length ns\<rparr>)"
proof (induction ns arbitrary: tot s)
  case Nil
  then show ?case by simp
next
  case (Cons n ns)
  show ?case
    by (simp add: Cons.IH Let_def setTimeout_def playbackTimer_def)
qed

lemma Max_insert_max:
  fixes a b :: int
  shows "finite S \<Longrightarrow> Max (insert (max a b) S) = Max (insert a (insert b S))"
  by (cases "S = {}") (simp_all add: max.assoc)

lemma foldl_total_Max:
  "foldl (\<lambda>t n. if quantizedEndStep n * msPerStep > t then quantizedEndStep n * msPerStep else t) tot ns
     = Max (insert tot (endMs ` set ns))"
proof (induction ns arbitrary: tot)
  case Nil
  then show ?case by simp
next
  case (Cons n ns)
  have m: "Max (insert (max tot (endMs n)) (endMs ` set ns)) = Max (insert tot (insert (endMs n) (endMs ` set ns)))"
    by (rule Max_insert_max) simp
  have "(if tot < quantizedEndStep n * msPerStep then quantizedEndStep n * msPerStep else tot) = max tot (endMs n)"
    by (simp add: endMs_def max_def)
  then show ?case
    using m by (simp only: foldl_Cons Cons.IH list.set image_insert)
qed

lemma totalDurationOf_Max: "totalDurationOf ns = Max (insert 0 (endMs ` set ns))"
  by (simp add: totalDurationOf_def scheduleNotes_eq foldl_total_Max)

lemma totalDurationOf_nonneg: "0 \<le> totalDurationOf ns"
  by (simp add: totalDurationOf_Max)

lemma totalDurationOf_nonempty:
  assumes "ns \<noteq> []" and "\<forall>n \<in> set ns. 0 \<le> quantizedEndStep n"
  shows "totalDurationOf ns = Max (endMs ` set ns)"
proof -
  obtain n where n: "n \<in> set ns" using assms(1) by (cases ns) auto
  have "0 \<le> endMs n" using assms(2) n by (simp add: endMs_def msPerStep_def)
  moreover have "endMs n \<le> Max (endMs ` set ns)" using n by simp
  ultimately have "0 \<le> Max (endMs ` set ns)" by linarith
  moreover have "endMs ` set ns \<noteq> {}" using n by auto
  ultimately show ?thesis
    unfolding totalDurationOf_Max by (simp add: max_def)
qed

lemma fst_scheduleNotes_0: "fst (scheduleNotes ns 0 s) = totalDurationOf ns"
  by (simp add: totalDurationOf_def scheduleNotes_eq)

lemma resume_Inr_eq:
  "triggerAIResponse_resume (Inr ns) s =
     s\<lparr>timers := timers s @ map (playbackTimer (clock s)) (enumerate (nextTimerId s) ns)
                   @ [resetTimerOf ns s],
       nextTimerId := Suc (nextTimerId s + length ns)\<rparr>"
proof -
  have "scheduleNotes ns 0 s = (totalDurationOf ns,
      s\<lparr>timers := timers s @ map (playbackTimer (clock s)) (enumerate (nextTimerId s) ns),
        nextTimerId := nextTimerId s + length ns\<rparr>)"
    using fst_scheduleNotes_0[of ns s] by (simp add: scheduleNotes_eq)
  moreover have "max 0 (rat_of_int (totalDurationOf ns + 500)) = of_int (totalDurationOf ns + 500)"
    using totalDurationOf_nonneg[of ns] by (simp add: max_def)
  ultimately show ?thesis
    by (simp add: triggerAIResponse_resume_def setTimeout_def resetTimerOf_def)
qed

lemma resume_Inl_eq:
  "triggerAIResponse_resume (Inl e) s =
     s\<lparr>isAIPlaying := False, userNotes := [], keyboardListening := True, pianoDisabled := False,
       status := StatusError\<rparr>"
  by (simp add: triggerAIResponse_resume_def enableKeyboard_def setStatus_def)

lemma filter_playbackTimers_reset:
  "filter (\<lambda>t. action t = ResetTurn) (map (playbackTimer c) xs) = []"
  by (induction xs) (simp_all add: playbackTimer_def)

lemma resetTimers_resume_Inr:
  "resetTimers (triggerAIResponse_resume (Inr ns) s) = resetTimers s @ [resetTimerOf ns s]"
  by (simp add: resume_Inr_eq resetTimers_def filter_playbackTimers_reset resetTimerOf_def)

subsection \<open>The invariant\<close>

lemma distinct_tid_eq:
  "distinct (map tid ts) \<Longrightarrow> x \<in> set ts \<Longrightarrow> y \<in> set ts \<Longrightarrow> tid x = tid y \<Longrightarrow> x = y"
  by (auto simp: distinct_map dest: inj_onD)

lemma find_tid: "find (\<lambda>t. tid t = i) ts = Some t \<Longrightarrow> t \<in> set ts \<and> tid t = i"
  by (induction ts) (auto split: if_splits)

lemma Inv_playNote: "Inv s \<Longrightarrow> idx < length MIDI_NUMS \<Longrightarrow> Inv (playNote idx False s)"
proof (cases "isAIPlaying s")
  case True
  assume "Inv s" then show ?thesis using True by (simp add: playNote_in_turn)
next
  case False
  assume inv: "Inv s" and idx: "idx < length MIDI_NUMS"
  have "set (activeNotes (playNote idx False s)) \<subseteq> set MIDI_NUMS"
    using flags_playNote(7)[of idx s] inv idx by (auto simp: Inv_def)
  then show ?thesis
    using inv False
    by (simp add: Inv_def turnCount_def timersWf_playNote resetTimers_playNote flags_playNote)
qed

lemma Inv_releaseNote: "Inv s \<Longrightarrow> Inv (releaseNote idx s)"
proof (cases "isAIPlaying s")
  case True
  assume "Inv s" then show ?thesis using True by (simp add: releaseNote_in_turn)
next
  case False
  assume inv: "Inv s"
  have "set (activeNotes (releaseNote idx s)) \<subseteq> set MIDI_NUMS"
    using flags_releaseNote(8)[of idx s] inv by (auto simp: Inv_def)
  then show ?thesis
    using inv False
    by (simp add: Inv_def turnCount_def timersWf_releaseNote resetTimers_releaseNote flags_releaseNote)
qed

lemma Inv_frame:
  "Inv s \<Longrightarrow> Inv (s\<lparr>lastKeyPressed := k\<rparr>)"
  "Inv s \<Longrightarrow> Inv (s\<lparr>clock := c\<rparr>)"
  by (simp_all add: Inv_def timersWf_def turnCount_def resetTimers_def)

lemma Inv_aiToggle_change: "Inv s \<Longrightarrow> Inv (aiToggle_change b s)"
  by (simp add: Inv_def turnCount_def timersWf_aiToggle_change resetTimers_aiToggle_change
      flags_aiToggle_change)

lemma Inv_window_pointerup: "Inv s \<Longrightarrow> Inv (window_pointerup s)"
  by (simp add: window_pointerup_def Inv_frame Inv_releaseNote)

lemma Inv_resume:
  assumes "Inv s" and "inFlight s > 0"
  shows "Inv (triggerAIResponse_resume r (s\<lparr>inFlight := inFlight s - 1\<rparr>))"
proof -
  have cnt: "inFlight s + length (resetTimers s) = (if isAIPlaying s then 1 else 0)"
    using assms(1) by (simp add: Inv_def turnCount_def)
  have playing: "isAIPlaying s" using cnt assms(2) by (auto split: if_splits)
  have cnt1: "inFlight s + length (resetTimers s) = 1" using cnt playing by simp
  have one: "inFlight s = 1" using cnt1 assms(2) by linarith
  have len: "length (resetTimers s) = 0" using cnt1 assms(2) by linarith
  have none: "resetTimers s = []" using len by simp
  let ?s0 = "s\<lparr>inFlight := inFlight s - 1\<rparr>"
  have wf0: "timersWf ?s0" using assms(1) by (simp add: Inv_def timersWf_frame)
  have r0: "resetTimers ?s0 = []" using none by (simp add: resetTimers_def)
  show ?thesis
  proof (cases r)
    case (Inl e)
    show ?thesis
      using assms(1) one r0 timersWf_resume[OF wf0, of r] unfolding Inl
      by (simp add: Inv_def turnCount_def resume_Inl_eq resetTimers_def)
  next
    case (Inr ns)
    have "resetTimers (triggerAIResponse_resume (Inr ns) ?s0) = [resetTimerOf ns ?s0]"
      using r0 by (simp add: resetTimers_resume_Inr)
    then show ?thesis
      using assms(1) one playing timersWf_resume[OF wf0, of r] unfolding Inr
      by (simp add: Inv_def turnCount_def resume_Inr_eq)
  qed
qed

lemma resetTimers_remove_other:
  assumes "timersWf s" and "t \<in> set (timers s)" and "tid t = i" and "action t \<noteq> ResetTurn"
  shows "resetTimers (s\<lparr>timers := filter (\<lambda>u. tid u \<noteq> i) (timers s)\<rparr>) = resetTimers s"
proof -
  have d: "distinct (map tid (timers s))" using assms(1) by (simp add: timersWf_def)
  have "\<forall>u \<in> set (timers s). action u = ResetTurn \<longrightarrow> tid u \<noteq> i"
    using distinct_tid_eq[OF d _ assms(2)] assms(3,4) by auto
  then show ?thesis
    by (auto simp: resetTimers_def intro!: filter_cong)
qed

lemma resetTimers_remove_reset:
  assumes "t \<in> set (timers s)" and "tid t = i" and "action t = ResetTurn"
    and "length (resetTimers s) \<le> 1"
  shows "resetTimers (s\<lparr>timers := filter (\<lambda>u. tid u \<noteq> i) (timers s)\<rparr>) = []"
proof -
  have mem: "t \<in> set (resetTimers s)" using assms(1,3) by (simp add: resetTimers_def)
  then have "resetTimers s = [t]" using assms(4) by (cases "resetTimers s") auto
  moreover have "resetTimers (s\<lparr>timers := filter (\<lambda>u. tid u \<noteq> i) (timers s)\<rparr>)
      = filter (\<lambda>u. tid u \<noteq> i) (resetTimers s)"
    by (auto simp: resetTimers_def intro!: filter_cong)
  ultimately show ?thesis using assms(2) by simp
qed

lemma Inv_triggerAIResponse: "Inv s \<Longrightarrow> Inv (triggerAIResponse s)"
proof (cases "\<not> aiEnabled s \<or> userNotes s = [] \<or> isAIPlaying s")
  case True
  assume "Inv s" then show ?thesis using triggerAIResponse_noop[OF True] by simp
next
  case False
  assume inv: "Inv s"
  have g: "aiEnabled s" "userNotes s \<noteq> []" "\<not> isAIPlaying s" using False by auto
  have "inFlight s = 0" "resetTimers s = []"
    using inv g(3) by (simp_all add: Inv_def turnCount_def)
  then show ?thesis
    using inv flags_triggerAIResponse_start[OF g]
    by (simp add: Inv_def turnCount_def timersWf_triggerAIResponse resetTimers_triggerAIResponse)
qed

lemma Inv_playGenerated: "Inv s \<Longrightarrow> Inv (playGenerated n d s)"
  by (simp add: Inv_def turnCount_def timersWf_playGenerated resetTimers_playGenerated
      flags_playGenerated)

lemma Inv_clearVisual: "Inv s \<Longrightarrow> Inv (s\<lparr>visualTimeouts := (visualTimeouts s)(m := None)\<rparr>)"
  using timersWf_clearVisual[of s m] by (simp add: Inv_def turnCount_def resetTimers_def)

lemma Inv_fireTimer: "Inv s \<Longrightarrow> Inv (fireTimer i s)"
proof -
  assume inv: "Inv s"
  show ?thesis
  proof (cases "find (\<lambda>t. tid t = i) (timers s)")
    case None
    then show ?thesis using inv by (simp add: fireTimer_def)
  next
    case (Some t)
    note t = find_tid[OF Some]
    let ?s0 = "s\<lparr>timers := filter (\<lambda>u. tid u \<noteq> i) (timers s)\<rparr>"
    have wf: "timersWf s" using inv by (simp add: Inv_def)
    have wf0: "timersWf ?s0" using wf by (rule timersWf_remove)
    show ?thesis
    proof (cases "due t \<le> clock s")
      case False
      then show ?thesis using inv Some by (simp add: fireTimer_def)
    next
      case True
      have fire: "fireTimer i s = runAction (action t) ?s0"
        using Some True by (simp add: fireTimer_def)
      show ?thesis
      proof (cases "action t = ResetTurn")
        case True
        have "t \<in> set (resetTimers s)" using t True by (simp add: resetTimers_def)
        then have pos: "length (resetTimers s) > 0" by (cases "resetTimers s") auto
        have cnt: "inFlight s + length (resetTimers s) = (if isAIPlaying s then 1 else 0)"
          using inv by (simp add: Inv_def turnCount_def)
        have playing: "isAIPlaying s" using cnt pos by (auto split: if_splits)
        have cnt1: "inFlight s + length (resetTimers s) = 1" using cnt playing by simp
        have fl: "inFlight s = 0" using cnt1 pos by linarith
        have le: "length (resetTimers s) \<le> 1" using cnt1 by linarith
        have r0: "resetTimers ?s0 = []"
          using resetTimers_remove_reset[OF _ _ True le] t by blast
        have "Inv (resetTurn ?s0)"
          using inv fl r0 timersWf_resetTurn[OF wf0]
          by (simp add: Inv_def turnCount_def resetTimers_resetTurn flags_resetTurn)
        then show ?thesis unfolding fire True by (simp add: runAction_def)
      next
        case False
        have "resetTimers ?s0 = resetTimers s"
          using resetTimers_remove_other[OF wf _ _ False] t by blast
        then have inv0: "Inv ?s0"
          using inv wf0 by (simp add: Inv_def turnCount_def)
        show ?thesis unfolding fire using False inv0 Inv_clearVisual[OF inv0]
          by (cases "action t")
             (simp_all add: runAction_def Inv_triggerAIResponse Inv_playGenerated)
      qed
    qed
  qed
qed

lemma Inv_step: "Inv s \<Longrightarrow> Inv (step e s)"
proof (cases e)
  case (KeyDown key repeat)
  assume "Inv s" then show ?thesis unfolding KeyDown
    using KEY_MAP_range[of key]
    by (auto simp add: step_def handleKeyDown_def Inv_playNote length_MIDI_NUMS split: option.splits)
next
  case (KeyUp key)
  assume "Inv s" then show ?thesis unfolding KeyUp
    by (simp add: step_def handleKeyUp_def Inv_releaseNote split: option.splits)
next
  case (PointerDown i)
  assume "Inv s" then show ?thesis unfolding PointerDown
    by (simp add: step_def Inv_playNote Inv_frame length_MIDI_NUMS length_NOTES)
next
  case (PointerEnter i b)
  assume "Inv s" then show ?thesis unfolding PointerEnter
    by (simp add: step_def Inv_playNote Inv_releaseNote Inv_frame length_MIDI_NUMS length_NOTES)
next
  case (PointerUp i)
  assume "Inv s" then show ?thesis unfolding PointerUp
    by (simp add: step_def Inv_window_pointerup Inv_releaseNote Inv_frame)
next
  case WindowPointerUp
  assume "Inv s" then show ?thesis unfolding WindowPointerUp
    by (simp add: step_def Inv_window_pointerup)
next
  case (ToggleChange b)
  assume "Inv s" then show ?thesis unfolding ToggleChange
    by (simp add: step_def Inv_aiToggle_change)
next
  case (TimerFire i)
  assume "Inv s" then show ?thesis unfolding TimerFire
    by (simp add: step_def Inv_fireTimer)
next
  case (ModelReturn r)
  assume "Inv s" then show ?thesis unfolding ModelReturn
    using Inv_resume[of s r] by (simp add: step_def)
next
  case (Advance d)
  assume "Inv s" then show ?thesis unfolding Advance
    by (simp add: step_def Inv_frame)
qed

lemma run_Nil: "run [] s = s"
  by (simp add: run_def)

lemma run_Cons: "run (e # es) s = run es (step e s)"
  by (simp add: run_def)

lemma run_append: "run (es @ fs) s = run fs (run es s)"
  by (simp add: run_def)

lemma Inv_run: "Inv s \<Longrightarrow> Inv (run es s)"
  by (induction es arbitrary: s) (simp_all add: run_Nil run_Cons Inv_step)

lemma Inv_init: "Inv init"
  by (simp add: Inv_def timersWf_def turnCount_def resetTimers_def init_def)

lemma reachable_Inv: "reachable s \<Longrightarrow> Inv s"
  by (auto simp: reachable_def Inv_run Inv_init)

lemma reachable_run: "reachable s \<Longrightarrow> reachable (run es s)"
  unfolding reachable_def using run_append by metis

lemma reachable_init: "reachable init"
  unfolding reachable_def using run_Nil by metis

lemma flags_resume:
  "aiEnabled (triggerAIResponse_resume r s) = aiEnabled s"
  "clock (triggerAIResponse_resume r s) = clock s"
  "modelCalls (triggerAIResponse_resume r s) = modelCalls s"
  "inFlight (triggerAIResponse_resume r s) = inFlight s"
  "synthLog (triggerAIResponse_resume r s) = synthLog s"
  "activeNotes (triggerAIResponse_resume r s) = activeNotes s"
  "isAIPlaying (triggerAIResponse_resume r s) \<longrightarrow> isAIPlaying s"
  by (cases r; simp add: resume_Inl_eq resume_Inr_eq)+

lemma flags_window_pointerup:
  "isAIPlaying (window_pointerup s) = isAIPlaying s"
  "inFlight (window_pointerup s) = inFlight s"
  "aiEnabled (window_pointerup s) = aiEnabled s"
  "clock (window_pointerup s) = clock s"
  "modelCalls (window_pointerup s) = modelCalls s"
  "userNotes (window_pointerup s) = userNotes s"
  "keyboardListening (window_pointerup s) = keyboardListening s"
  by (simp_all add: window_pointerup_def flags_releaseNote)

lemma runAction_other:
  assumes "a \<noteq> TriggerAI"
  shows "modelCalls (runAction a s) = modelCalls s"
    and "isAIPlaying (runAction a s) \<longrightarrow> isAIPlaying s"
    and "aiEnabled (runAction a s) = aiEnabled s"
    and "clock (runAction a s) = clock s"
    and "inFlight (runAction a s) = inFlight s"
  using assms by (cases a; simp add: runAction_def flags_playGenerated flags_resetTurn)+

lemma runAction_fall:
  "isAIPlaying s \<Longrightarrow> \<not> isAIPlaying (runAction a s) \<Longrightarrow>
     userNotes (runAction a s) = [] \<and> keyboardListening (runAction a s)"
  by (cases a)
     (auto simp add: runAction_def flags_playGenerated flags_resetTurn triggerAIResponse_noop)

text \<open>What a step can do to the turn flag and to the calls of the model.\<close>

lemma step_turn_start:
  "(modelCalls (step e s) = modelCalls s \<and> (isAIPlaying (step e s) \<longrightarrow> isAIPlaying s)) \<or>
   (\<not> isAIPlaying s \<and> aiEnabled s \<and> userNotes s \<noteq> [] \<and> isAIPlaying (step e s) \<and>
    length (modelCalls (step e s)) = Suc (length (modelCalls s)) \<and>
    (\<exists>i t. e = TimerFire i \<and> find (\<lambda>t. tid t = i) (timers s) = Some t \<and>
       action t = TriggerAI \<and> due t \<le> clock s))"
proof (cases e)
  case (TimerFire i)
  show ?thesis
  proof (cases "find (\<lambda>t. tid t = i) (timers s)")
    case None
    then show ?thesis unfolding TimerFire by (simp add: step_def fireTimer_def)
  next
    case (Some t)
    let ?s0 = "s\<lparr>timers := filter (\<lambda>u. tid u \<noteq> i) (timers s)\<rparr>"
    show ?thesis
    proof (cases "due t \<le> clock s")
      case False
      then show ?thesis unfolding TimerFire using Some by (simp add: step_def fireTimer_def)
    next
      case True
      have fire: "step e s = runAction (action t) ?s0"
        unfolding TimerFire using Some True by (simp add: step_def fireTimer_def)
      show ?thesis
      proof (cases "action t = TriggerAI")
        case False
        show ?thesis unfolding fire using runAction_other(1,2)[OF False, of ?s0] by simp
      next
        case trig: True
        show ?thesis
        proof (cases "\<not> aiEnabled ?s0 \<or> userNotes ?s0 = [] \<or> isAIPlaying ?s0")
          case True
          show ?thesis unfolding fire trig
            by (simp add: runAction_def triggerAIResponse_noop[OF True])
        next
          case False
          then have g: "aiEnabled ?s0" "userNotes ?s0 \<noteq> []" "\<not> isAIPlaying ?s0" by auto
          have "isAIPlaying (step e s)" "length (modelCalls (step e s)) = Suc (length (modelCalls s))"
            unfolding fire trig using flags_triggerAIResponse_start[OF g] by (simp_all add: runAction_def)
          then show ?thesis using g Some trig True TimerFire by auto
        qed
      qed
    qed
  qed
next
  case (ModelReturn r)
  show ?thesis unfolding ModelReturn
    using flags_resume(3,7)[of r "s\<lparr>inFlight := inFlight s - 1\<rparr>"] by (simp add: step_def)
qed (simp_all add: step_def handleKeyDown_def handleKeyUp_def flags_playNote flags_releaseNote
       flags_window_pointerup flags_aiToggle_change split: option.splits)

lemma step_turn_end:
  assumes "isAIPlaying s" and "\<not> isAIPlaying (step e s)"
  shows "userNotes (step e s) = [] \<and> keyboardListening (step e s)"
proof (cases e)
  case (TimerFire i)
  show ?thesis
  proof (cases "find (\<lambda>t. tid t = i) (timers s)")
    case None
    then show ?thesis using assms unfolding TimerFire by (simp add: step_def fireTimer_def)
  next
    case (Some t)
    show ?thesis
    proof (cases "due t \<le> clock s")
      case False
      then show ?thesis using assms Some unfolding TimerFire by (simp add: step_def fireTimer_def)
    next
      case True
      have fire: "step e s = runAction (action t) (s\<lparr>timers := filter (\<lambda>u. tid u \<noteq> i) (timers s)\<rparr>)"
        unfolding TimerFire using Some True by (simp add: step_def fireTimer_def)
      show ?thesis
        using assms runAction_fall[of "s\<lparr>timers := filter (\<lambda>u. tid u \<noteq> i) (timers s)\<rparr>" "action t"]
        unfolding fire by simp
    qed
  qed
next
  case (ModelReturn r)
  show ?thesis
  proof (cases r)
    case (Inl err)
    show ?thesis using assms unfolding ModelReturn Inl
      by (simp add: step_def resume_Inl_eq split: if_splits)
  next
    case (Inr ns)
    show ?thesis using assms unfolding ModelReturn Inr
      by (simp add: step_def resume_Inr_eq split: if_splits)
  qed
qed (use assms in \<open>simp_all add: step_def handleKeyDown_def handleKeyUp_def flags_playNote
       flags_releaseNote flags_window_pointerup flags_aiToggle_change split: option.splits if_splits\<close>)

lemma reachable_examples:
  "reachable awaitingReply" "reachable twoNotesPlayed" "reachable playedWhileOff" "reachable keysHeld"
  by (simp_all add: awaitingReply_def twoNotesPlayed_def playedWhileOff_def keysHeld_def
      reachable_run reachable_init)

section \<open>Turn taking\<close>

text \<open>
  Claim C4. The generation trigger is a no-op, leaving the whole state as it is, when
  the AI is disabled, the buffer is empty or an AI turn is under way; when its timer
  fires then, nothing changes but that the timer has left the queue. A step takes
  the system from the human turn into the AI turn only when it fires a due trigger
  timer while the AI is enabled and the buffer is non-empty; the model is called at
  such a step and at no other. In every reachable state the calls awaiting an answer
  and the pending end-of-turn timers number one during an AI turn and none outside:
  there are never two AI turns at once.
\<close>

theorem single_ai_turn:
  "((\<not> aiEnabled s \<or> userNotes s = [] \<or> isAIPlaying s) \<longrightarrow> triggerAIResponse s = s) \<and>
   (\<not> isAIPlaying s \<and> isAIPlaying (step e s) \<longrightarrow>
      aiEnabled s \<and> userNotes s \<noteq> [] \<and>
      (\<exists>i t. e = TimerFire i \<and> find (\<lambda>t. tid t = i) (timers s) = Some t \<and>
         action t = TriggerAI \<and> due t \<le> clock s)) \<and>
   (modelCalls (step e s) \<noteq> modelCalls s \<longrightarrow> \<not> isAIPlaying s \<and> isAIPlaying (step e s)) \<and>
   (find (\<lambda>t. tid t = i) (timers s) = Some t \<and> action t = TriggerAI \<and> due t \<le> clock s \<and>
      (\<not> aiEnabled s \<or> userNotes s = [] \<or> isAIPlaying s) \<longrightarrow>
      step (TimerFire i) s = s\<lparr>timers := filter (\<lambda>u. tid u \<noteq> i) (timers s)\<rparr>) \<and>
   (reachable s \<longrightarrow> inFlight s + length (resetTimers s) = (if isAIPlaying s then 1 else 0))"
proof -
  have n: "find (\<lambda>t. tid t = i) (timers s) = Some t \<and> action t = TriggerAI \<and> due t \<le> clock s \<and>
      (\<not> aiEnabled s \<or> userNotes s = [] \<or> isAIPlaying s) \<longrightarrow>
      step (TimerFire i) s = s\<lparr>timers := filter (\<lambda>u. tid u \<noteq> i) (timers s)\<rparr>"
    by (auto simp: step_def fireTimer_def runAction_def triggerAIResponse_def)
  have a: "(\<not> aiEnabled s \<or> userNotes s = [] \<or> isAIPlaying s) \<longrightarrow> triggerAIResponse s = s"
    using triggerAIResponse_noop by blast
  have d: "reachable s \<longrightarrow> inFlight s + length (resetTimers s) = (if isAIPlaying s then 1 else 0)"
    using reachable_Inv[of s] by (simp add: Inv_def turnCount_def)
  show ?thesis using a d n step_turn_start[of e s] by blast
qed

theorem single_ai_turn_witness:
  "isAIPlaying awaitingReply \<and> triggerAIResponse awaitingReply = awaitingReply \<and>
   modelCalls (step (TimerFire 0) awaitingReply) = modelCalls awaitingReply \<and>
   inFlight awaitingReply + length (resetTimers awaitingReply) = 1"
proof -
  have p: "isAIPlaying awaitingReply" by code_simp
  have r: "reachable awaitingReply" by (rule reachable_examples)
  show ?thesis
    using single_ai_turn[where s = awaitingReply and e = "TimerFire 0"] p r by auto
qed

text \<open>
  Claim C5. When the model call fails during an AI turn, the same step ends the turn:
  the buffer is emptied and the keyboard listeners are attached again, no timer is
  queued (neither playback nor the settle delay), no time passes and nothing is
  played. And whenever a step ends an AI turn, by failure or by the end-of-turn
  timer, the buffer is empty and the keyboard listeners are attached afterwards.
\<close>

theorem model_failure_recovers:
  assumes "inFlight s > 0"
  shows "\<not> isAIPlaying (step (ModelReturn (Inl err)) s) \<and>
         userNotes (step (ModelReturn (Inl err)) s) = [] \<and>
         keyboardListening (step (ModelReturn (Inl err)) s) \<and>
         \<not> pianoDisabled (step (ModelReturn (Inl err)) s) \<and>
         timers (step (ModelReturn (Inl err)) s) = timers s \<and>
         clock (step (ModelReturn (Inl err)) s) = clock s \<and>
         synthLog (step (ModelReturn (Inl err)) s) = synthLog s \<and>
         (isAIPlaying u \<and> \<not> isAIPlaying (step e u) \<longrightarrow>
            userNotes (step e u) = [] \<and> keyboardListening (step e u))"
  using assms step_turn_end[of u e] by (simp add: step_def resume_Inl_eq)

theorem model_failure_recovers_witness:
  "inFlight awaitingReply > 0 \<and> isAIPlaying awaitingReply \<and> userNotes awaitingReply \<noteq> [] \<and>
   \<not> isAIPlaying (step (ModelReturn (Inl ''rejected'')) awaitingReply) \<and>
   userNotes (step (ModelReturn (Inl ''rejected'')) awaitingReply) = [] \<and>
   keyboardListening (step (ModelReturn (Inl ''rejected'')) awaitingReply) \<and>
   timers (step (ModelReturn (Inl ''rejected'')) awaitingReply) = []"
proof -
  have f: "inFlight awaitingReply > 0" by code_simp
  have p: "isAIPlaying awaitingReply" "userNotes awaitingReply \<noteq> []" "timers awaitingReply = []"
    by code_simp+
  show ?thesis
    using model_failure_recovers[OF f, of "''rejected''" awaitingReply "ModelReturn (Inl ''rejected'')"] f p
    by simp
qed

text \<open>
  Claim C8. On entry to the AI turn the synthesizer is told to release every note of
  the active-note map, in the order the notes were pressed, the map is cleared, and no
  timer has been queued yet. Every pitch the map can hold is a key of the piano, and
  the release names that key. In every reachable state the map is empty while an AI
  turn is under way.
\<close>

theorem entry_releases_held_notes:
  assumes "aiEnabled s" and "userNotes s \<noteq> []" and "\<not> isAIPlaying s"
  shows "isAIPlaying (triggerAIResponse s) \<and>
         synthLog (triggerAIResponse s) =
           synthLog s @ map (\<lambda>midi. TriggerRelease (noteAt (indexOf MIDI_NUMS midi))) (activeNotes s) \<and>
         activeNotes (triggerAIResponse s) = [] \<and>
         timers (triggerAIResponse s) = timers s \<and>
         (\<forall>midi \<in> set MIDI_NUMS. \<exists>i. indexOf MIDI_NUMS midi = Some i \<and> MIDI_NUMS ! i = midi \<and>
            noteAt (indexOf MIDI_NUMS midi) = Some (NOTES ! i)) \<and>
         (reachable u \<longrightarrow> set (activeNotes u) \<subseteq> set MIDI_NUMS \<and> (isAIPlaying u \<longrightarrow> activeNotes u = []))"
proof -
  have a: "isAIPlaying (triggerAIResponse s) \<and>
         synthLog (triggerAIResponse s) =
           synthLog s @ map (\<lambda>midi. TriggerRelease (noteAt (indexOf MIDI_NUMS midi))) (activeNotes s) \<and>
         activeNotes (triggerAIResponse s) = [] \<and>
         timers (triggerAIResponse s) = timers s"
    using assms by (simp add: triggerAIResponse_def disableKeyboard_def setStatus_def Let_def)
  have b: "\<exists>i. indexOf MIDI_NUMS midi = Some i \<and> MIDI_NUMS ! i = midi \<and>
            noteAt (indexOf MIDI_NUMS midi) = Some (NOTES ! i)" if mem: "midi \<in> set MIDI_NUMS" for midi
  proof -
    obtain i where i: "indexOf MIDI_NUMS midi = Some i" using indexOf_mem[OF mem] by blast
    have "i < length MIDI_NUMS" "MIDI_NUMS ! i = midi" using indexOf_nth[OF i] by simp_all
    then show ?thesis using i by (simp add: noteAt_def length_MIDI_NUMS length_NOTES)
  qed
  have c: "reachable u \<longrightarrow> set (activeNotes u) \<subseteq> set MIDI_NUMS \<and> (isAIPlaying u \<longrightarrow> activeNotes u = [])"
    using reachable_Inv[of u] by (simp add: Inv_def)
  show ?thesis using a b c by blast
qed

theorem entry_releases_held_notes_witness:
  "activeNotes keysHeld = [60, 64] \<and>
   synthLog (triggerAIResponse keysHeld) =
     synthLog keysHeld @ [TriggerRelease (Some ''C4''), TriggerRelease (Some ''E4'')] \<and>
   activeNotes (triggerAIResponse keysHeld) = [] \<and>
   isAIPlaying awaitingReply \<and> activeNotes awaitingReply = []"
proof -
  have g: "aiEnabled keysHeld" "userNotes keysHeld \<noteq> []" "\<not> isAIPlaying keysHeld"
    by code_simp+
  have act: "activeNotes keysHeld = [60, 64]" by code_simp
  have nm: "noteAt (indexOf MIDI_NUMS 60) = Some ''C4''" "noteAt (indexOf MIDI_NUMS 64) = Some ''E4''"
    by code_simp+
  have p: "isAIPlaying awaitingReply" by code_simp
  show ?thesis
    using entry_releases_held_notes[OF g, of awaitingReply] act nm p reachable_examples(1)
    by simp
qed

section \<open>Playback\<close>

lemma synthLog_playGenerated:
  "\<exists>name. synthLog (playGenerated n d s) = synthLog s @ [TriggerAttackRelease name (Seconds d)]"
proof -
  obtain r where r: "closestMidi (pitch n) = Some r" using closestMidi_Some by blast
  obtain i where i: "indexOf MIDI_NUMS r = Some i"
    using indexOf_mem[OF closestMidi_props(1)[OF r]] by blast
  show ?thesis
    by (auto simp: playGenerated_def r i playNoteWithDuration_def clearTimeout_def setTimeout_def
        Let_def split: option.splits)
qed

lemma nth_reply_timers:
  assumes "k < length ns"
  shows "(ts @ map (playbackTimer c) (enumerate m ns) @ [r]) ! (length ts + k) = playbackTimer c (m + k, ns ! k)"
  using assms by (simp add: nth_append nth_enumerate_eq)

text \<open>
  Claim C7. When the model has answered, the k-th generated note is queued as a timer
  due quantizedStartStep * 125 ms after the answer arrived (for a start step that is
  not negative), carrying the duration (quantizedEndStep - quantizedStartStep) * 125 /
  1000 seconds; its callback plays one note of exactly that duration. A note from step
  2 to step 6 is due after 250 ms and lasts 0.5 s.
\<close>

theorem playback_offset_duration:
  assumes "inFlight s > 0" and "k < length ns" and "0 \<le> quantizedStartStep (ns ! k)"
  shows "timers (step (ModelReturn (Inr ns)) s) ! (length (timers s) + k) =
           \<lparr>tid = nextTimerId s + k,
            due = clock s + of_int (quantizedStartStep (ns ! k) * 125),
            action = PlayGenerated (ns ! k)
              (of_int ((quantizedEndStep (ns ! k) - quantizedStartStep (ns ! k)) * 125) / 1000)\<rparr> \<and>
         length (timers (step (ModelReturn (Inr ns)) s)) = length (timers s) + length ns + 1 \<and>
         (\<exists>name. synthLog (runAction (PlayGenerated n d) u) =
            synthLog u @ [TriggerAttackRelease name (Seconds d)])"
proof -
  have st: "step (ModelReturn (Inr ns)) s = triggerAIResponse_resume (Inr ns) (s\<lparr>inFlight := inFlight s - 1\<rparr>)"
    using assms(1) by (simp add: step_def)
  have "timers (step (ModelReturn (Inr ns)) s) ! (length (timers s) + k)
        = playbackTimer (clock s) (nextTimerId s + k, ns ! k)"
    unfolding st using nth_reply_timers[OF assms(2)] by (simp add: resume_Inr_eq)
  moreover have "playbackTimer (clock s) (nextTimerId s + k, ns ! k) =
           \<lparr>tid = nextTimerId s + k,
            due = clock s + of_int (quantizedStartStep (ns ! k) * 125),
            action = PlayGenerated (ns ! k)
              (of_int ((quantizedEndStep (ns ! k) - quantizedStartStep (ns ! k)) * 125) / 1000)\<rparr>"
    using assms(3) by (simp add: playbackTimer_def msPerStep_def max_def algebra_simps)
  moreover have "length (timers (step (ModelReturn (Inr ns)) s)) = length (timers s) + length ns + 1"
    unfolding st by (simp add: resume_Inr_eq)
  moreover have "\<exists>name. synthLog (runAction (PlayGenerated n d) u) =
            synthLog u @ [TriggerAttackRelease name (Seconds d)]"
    using synthLog_playGenerated[of n d u] by (simp add: runAction_def)
  ultimately show ?thesis by simp
qed

theorem playback_offset_duration_witness:
  "inFlight awaitingReply > 0 \<and> clock awaitingReply = 2000 \<and>
   timers (step (ModelReturn (Inr [stepsTwoToSix])) awaitingReply) ! 0 =
     \<lparr>tid = 1, due = 2250, action = PlayGenerated stepsTwoToSix (1 / 2)\<rparr>"
proof -
  have f: "inFlight awaitingReply > 0" by code_simp
  have k: "0 < length [stepsTwoToSix]" by simp
  have q: "0 \<le> quantizedStartStep ([stepsTwoToSix] ! 0)" by (simp add: stepsTwoToSix_def)
  have v: "timers awaitingReply = []" "nextTimerId awaitingReply = 1" "clock awaitingReply = 2000"
    by code_simp+
  have w: "quantizedStartStep stepsTwoToSix = 2" "quantizedEndStep stepsTwoToSix = 6"
    by (simp_all add: stepsTwoToSix_def)
  show ?thesis
    using playback_offset_duration[OF f k q, of stepsTwoToSix "1 / 2" awaitingReply] f v w
    by simp
qed

section \<open>The end of the AI turn\<close>

lemma clock_runAction: "clock (runAction a s) = clock s"
  by (cases a) (simp_all add: runAction_def flags_triggerAIResponse flags_playGenerated flags_resetTurn)

lemma clock_fireTimer: "clock (fireTimer i s) = clock s"
  by (simp add: fireTimer_def clock_runAction split: option.splits)

lemma clock_step: "clock s \<le> clock (step e s)"
  by (cases e)
     (simp_all add: step_def handleKeyDown_def handleKeyUp_def flags_playNote flags_releaseNote
        flags_window_pointerup flags_aiToggle_change clock_fireTimer flags_resume
        split: option.splits)

lemma clock_run: "clock s \<le> clock (run es s)"
proof (induction es arbitrary: s)
  case Nil
  then show ?case by (simp add: run_Nil)
next
  case (Cons e es)
  have "clock s \<le> clock (step e s)" by (rule clock_step)
  also have "\<dots> \<le> clock (run es (step e s))" by (rule Cons.IH)
  finally show ?case by (simp add: run_Cons)
qed

lemma heldUntil_frame:
  "heldUntil D s \<Longrightarrow> heldUntil D (s\<lparr>lastKeyPressed := k\<rparr>)"
  "heldUntil D s \<Longrightarrow> heldUntil D (s\<lparr>clock := c\<rparr>)"
  "heldUntil D s \<Longrightarrow> heldUntil D (s\<lparr>visualTimeouts := v\<rparr>)"
  by (simp_all add: heldUntil_def resetTimers_def)

lemma heldUntil_fireTimer:
  assumes "heldUntil D s" and "timersWf s" and "clock s < D"
  shows "heldUntil D (fireTimer i s)"
proof (cases "find (\<lambda>t. tid t = i) (timers s)")
  case None
  then show ?thesis using assms(1) by (simp add: fireTimer_def)
next
  case (Some t)
  note t = find_tid[OF Some]
  let ?s0 = "s\<lparr>timers := filter (\<lambda>u. tid u \<noteq> i) (timers s)\<rparr>"
  show ?thesis
  proof (cases "due t \<le> clock s")
    case False
    then show ?thesis using assms(1) Some by (simp add: fireTimer_def)
  next
    case True
    have fire: "fireTimer i s = runAction (action t) ?s0"
      using Some True by (simp add: fireTimer_def)
    have notreset: "action t \<noteq> ResetTurn"
    proof
      assume "action t = ResetTurn"
      then have "t \<in> set (resetTimers s)" using t by (simp add: resetTimers_def)
      then have "D \<le> due t" using assms(1) by (simp add: heldUntil_def)
      then show False using True assms(3) by linarith
    qed
    have r0: "resetTimers ?s0 = resetTimers s"
      using resetTimers_remove_other[OF assms(2) _ _ notreset] t by blast
    have h0: "heldUntil D ?s0" using assms(1) r0 by (simp add: heldUntil_def)
    have wf0: "timersWf ?s0" using assms(2) by (rule timersWf_remove)
    show ?thesis
    proof (cases "action t")
      case TriggerAI
      have "triggerAIResponse ?s0 = ?s0"
        using h0 by (intro triggerAIResponse_noop) (simp add: heldUntil_def)
      then show ?thesis unfolding fire TriggerAI using h0 by (simp add: runAction_def)
    next
      case (PlayGenerated n d)
      show ?thesis unfolding fire PlayGenerated using h0 resetTimers_playGenerated[OF wf0, of n d]
        by (simp add: runAction_def heldUntil_def flags_playGenerated)
    next
      case ResetTurn
      then show ?thesis using notreset by simp
    next
      case (ClearVisual m)
      show ?thesis unfolding fire ClearVisual
        using heldUntil_frame(3)[OF h0] by (simp add: runAction_def)
    next
      case (RemoveAIClass m)
      show ?thesis unfolding fire RemoveAIClass using h0 by (simp add: runAction_def)
    qed
  qed
qed

lemma heldUntil_step:
  assumes "heldUntil D s" and "timersWf s" and "clock s < D"
  shows "heldUntil D (step e s)"
proof -
  have p: "isAIPlaying s" and f: "inFlight s = 0" using assms(1) by (simp_all add: heldUntil_def)
  show ?thesis
  proof (cases e)
    case (ToggleChange b)
    show ?thesis unfolding ToggleChange using assms(1) resetTimers_aiToggle_change[OF assms(2), of b]
      by (simp add: step_def heldUntil_def flags_aiToggle_change)
  next
    case (TimerFire i)
    show ?thesis unfolding TimerFire using heldUntil_fireTimer[OF assms] by (simp add: step_def)
  next
    case (ModelReturn r)
    show ?thesis unfolding ModelReturn using assms(1) f by (simp add: step_def)
  next
    case (Advance d)
    show ?thesis unfolding Advance using assms(1) by (simp add: step_def heldUntil_frame)
  qed (use assms(1) p in \<open>simp_all add: step_def handleKeyDown_def handleKeyUp_def window_pointerup_def
         playNote_in_turn releaseNote_in_turn heldUntil_frame split: option.splits\<close>)
qed

lemma heldUntil_run:
  "heldUntil D s \<Longrightarrow> timersWf s \<Longrightarrow> clock (run es s) < D \<Longrightarrow> heldUntil D (run es s)"
proof (induction es arbitrary: s)
  case Nil
  then show ?case by (simp add: run_Nil)
next
  case (Cons e es)
  have "clock s \<le> clock (step e s)" by (rule clock_step)
  also have "\<dots> \<le> clock (run es (step e s))" by (rule clock_run)
  finally have now: "clock s < D" using Cons.prems(3) by (simp add: run_Cons)
  have "heldUntil D (step e s)" using heldUntil_step[OF Cons.prems(1,2) now] .
  moreover have "timersWf (step e s)" using Cons.prems(2) by (rule timersWf_step)
  ultimately show ?case using Cons.IH Cons.prems(3) by (simp add: run_Cons)
qed

lemma maxEndOffsetMs_total:
  assumes "\<forall>n \<in> set ns. 0 \<le> quantizedEndStep n"
  shows "totalDurationOf ns = maxEndOffsetMs ns"
proof (cases "ns = []")
  case True
  then show ?thesis by (simp add: maxEndOffsetMs_def totalDurationOf_Max)
next
  case False
  show ?thesis
    using totalDurationOf_nonempty[OF False assms] False by (simp add: maxEndOffsetMs_def)
qed

text \<open>
  Claim C3, as the code has it. With a reply that has no notes the turn does not end
  at once: after the answer the turn is still under way, the listeners are still
  detached, the buffer is still full, and the end-of-turn timer is due 500 ms later;
  trying to fire it before then changes nothing.
\<close>

theorem empty_reply_counterexample:
  "inFlight awaitingReply = 1 \<and>
   isAIPlaying (step (ModelReturn (Inr [])) awaitingReply) \<and>
   \<not> keyboardListening (step (ModelReturn (Inr [])) awaitingReply) \<and>
   userNotes (step (ModelReturn (Inr [])) awaitingReply) \<noteq> [] \<and>
   timers (step (ModelReturn (Inr [])) awaitingReply) =
     [\<lparr>tid = 1, due = clock awaitingReply + 500, action = ResetTurn\<rparr>] \<and>
   isAIPlaying (step (TimerFire 1) (step (ModelReturn (Inr [])) awaitingReply))"
  by code_simp

text \<open>
  Claim C3, amended. When the model has answered (end steps not negative), exactly one
  end-of-turn timer is pending, due maxEndOffsetMs + 500 ms after the answer, where
  maxEndOffsetMs is the largest quantizedEndStep * 125 of the reply and 0 for a reply
  without notes. Whatever happens, as long as the clock is before that time the AI
  turn is still under way. The callback of the timer ends the turn, empties the buffer
  and attaches the keyboard listeners.
\<close>

theorem turn_ends_after_settle:
  assumes "reachable s" and "inFlight s > 0" and "\<forall>n \<in> set ns. 0 \<le> quantizedEndStep n"
  shows "resetTimers (step (ModelReturn (Inr ns)) s) =
           [\<lparr>tid = nextTimerId s + length ns,
             due = clock s + of_int (maxEndOffsetMs ns + 500),
             action = ResetTurn\<rparr>] \<and>
         (\<forall>es. clock (run es (step (ModelReturn (Inr ns)) s)) < clock s + of_int (maxEndOffsetMs ns + 500)
            \<longrightarrow> isAIPlaying (run es (step (ModelReturn (Inr ns)) s))) \<and>
         \<not> isAIPlaying (runAction ResetTurn u) \<and> userNotes (runAction ResetTurn u) = [] \<and>
         keyboardListening (runAction ResetTurn u)"
proof -
  let ?s0 = "s\<lparr>inFlight := inFlight s - 1\<rparr>"
  let ?s1 = "step (ModelReturn (Inr ns)) s"
  let ?D = "clock s + of_int (maxEndOffsetMs ns + 500)"
  have inv: "Inv s" using assms(1) by (rule reachable_Inv)
  have cnt: "inFlight s + length (resetTimers s) = (if isAIPlaying s then 1 else 0)"
    using inv by (simp add: Inv_def turnCount_def)
  have playing: "isAIPlaying s" using cnt assms(2) by (auto split: if_splits)
  have cnt1: "inFlight s + length (resetTimers s) = 1" using cnt playing by simp
  have one: "inFlight s = 1" using cnt1 assms(2) by linarith
  have len: "length (resetTimers s) = 0" using cnt1 assms(2) by linarith
  have none: "resetTimers ?s0 = []" using len by (simp add: resetTimers_def)
  have st: "?s1 = triggerAIResponse_resume (Inr ns) ?s0"
    using assms(2) by (simp add: step_def)
  have r: "resetTimers ?s1 =
           [\<lparr>tid = nextTimerId s + length ns, due = ?D, action = ResetTurn\<rparr>]"
    unfolding st using none maxEndOffsetMs_total[OF assms(3)]
    by (simp add: resetTimers_resume_Inr resetTimerOf_def)
  have held: "heldUntil ?D ?s1"
    using r playing one unfolding heldUntil_def st by (simp add: resume_Inr_eq)
  have wf: "timersWf ?s1" using inv Inv_step[of s "ModelReturn (Inr ns)"] by (simp add: Inv_def)
  have nb: "\<forall>es. clock (run es ?s1) < ?D \<longrightarrow> isAIPlaying (run es ?s1)"
    using heldUntil_run[OF held wf] by (simp add: heldUntil_def)
  have cb: "\<not> isAIPlaying (runAction ResetTurn u) \<and> userNotes (runAction ResetTurn u) = [] \<and>
         keyboardListening (runAction ResetTurn u)"
    by (simp add: runAction_def flags_resetTurn)
  show ?thesis using r nb cb by blast
qed

theorem turn_ends_after_settle_witness:
  "inFlight awaitingReply > 0 \<and> clock awaitingReply = 2000 \<and>
   resetTimers (step (ModelReturn (Inr twoNoteReply)) awaitingReply) =
     [\<lparr>tid = 3, due = 3500, action = ResetTurn\<rparr>] \<and>
   isAIPlaying (run [TimerFire 1, Advance 1499, TimerFire 3] (step (ModelReturn (Inr twoNoteReply)) awaitingReply)) \<and>
   \<not> isAIPlaying (run [Advance 1500, TimerFire 3] (step (ModelReturn (Inr twoNoteReply)) awaitingReply))"
proof -
  have f: "inFlight awaitingReply > 0" by code_simp
  have q: "\<forall>n \<in> set twoNoteReply. 0 \<le> quantizedEndStep n" by (simp add: twoNoteReply_def)
  have v: "nextTimerId awaitingReply = 1" "clock awaitingReply = 2000" "length twoNoteReply = 2"
    "maxEndOffsetMs twoNoteReply = 1000"
    by code_simp+
  have c: "clock (run [TimerFire 1, Advance 1499, TimerFire 3] (step (ModelReturn (Inr twoNoteReply)) awaitingReply)) = 3499"
    by code_simp
  have e: "\<not> isAIPlaying (run [Advance 1500, TimerFire 3] (step (ModelReturn (Inr twoNoteReply)) awaitingReply))"
    by code_simp
  from turn_ends_after_settle[OF reachable_examples(1) f q]
  have r: "resetTimers (step (ModelReturn (Inr twoNoteReply)) awaitingReply) =
           [\<lparr>tid = nextTimerId awaitingReply + length twoNoteReply,
             due = clock awaitingReply + of_int (maxEndOffsetMs twoNoteReply + 500),
             action = ResetTurn\<rparr>]"
    and nb: "\<forall>es. clock (run es (step (ModelReturn (Inr twoNoteReply)) awaitingReply))
               < clock awaitingReply + of_int (maxEndOffsetMs twoNoteReply + 500)
            \<longrightarrow> isAIPlaying (run es (step (ModelReturn (Inr twoNoteReply)) awaitingReply))"
    by blast+
  have "isAIPlaying (run [TimerFire 1, Advance 1499, TimerFire 3] (step (ModelReturn (Inr twoNoteReply)) awaitingReply))"
    using nb[rule_format, of "[TimerFire 1, Advance 1499, TimerFire 3]"] c v by simp
  then show ?thesis using r f v e by simp
qed

section \<open>The inactivity timer\<close>

lemma same_tid_le1:
  assumes "distinct (map tid ts)" and "\<forall>t \<in> set ts. tid t = i"
  shows "length ts \<le> 1"
proof (cases ts)
  case Nil
  then show ?thesis by simp
next
  case (Cons x xs)
  show ?thesis
  proof (cases xs)
    case Nil
    then show ?thesis using Cons by simp
  next
    case (Cons y ys)
    have "tid x = tid y" using assms(2) \<open>ts = x # xs\<close> Cons by simp
    then have False using assms(1) \<open>ts = x # xs\<close> Cons by simp
    then show ?thesis ..
  qed
qed

lemma triggerTimers_le1: "timersWf s \<Longrightarrow> length (triggerTimers s) \<le> 1"
proof (cases "inactivityTimer s")
  case None
  assume "timersWf s"
  then have "\<forall>t \<in> set (timers s). action t \<noteq> TriggerAI" using None by (simp add: timersWf_def)
  then have "triggerTimers s = []" by (simp add: triggerTimers_def filter_empty_conv)
  then show ?thesis by simp
next
  case (Some i)
  assume wf: "timersWf s"
  have "distinct (map tid (triggerTimers s))"
    using wf by (simp add: timersWf_def triggerTimers_def distinct_map_filter)
  moreover have "\<forall>t \<in> set (triggerTimers s). tid t = i"
    using wf Some by (auto simp: timersWf_def triggerTimers_def)
  ultimately show ?thesis by (rule same_tid_le1)
qed

lemma releaseNote_arms:
  assumes "timersWf s" and "\<not> isAIPlaying s"
  shows "if activeNotes (releaseNote idx s) = [] \<and> aiEnabled s
         then triggerTimers (releaseNote idx s) =
                [\<lparr>tid = nextTimerId s, due = clock s + 2000, action = TriggerAI\<rparr>]
         else timers (releaseNote idx s) = timers s"
  using assms
  unfolding timersWf_def triggerTimers_def releaseNote_def clearTimeout_def setTimeout_def Let_def
    INACTIVITY_THRESHOLD_def
  by (auto split: option.splits simp: filter_empty_conv)

text \<open>
  Claim C9, as the code has it. A note-off on an empty buffer arms the inactivity
  timer: at the start, and after an AI turn when the human lets go of a key that was
  pressed during the turn.
\<close>

theorem release_on_empty_buffer_counterexample:
  "aiEnabled init \<and> userNotes (step (KeyUp ''a'') init) = [] \<and>
   timers (step (KeyUp ''a'') init) = [\<lparr>tid = 0, due = 2000, action = TriggerAI\<rparr>] \<and>
   aiEnabled heldThroughTurn \<and> timers heldThroughTurn = [] \<and>
   userNotes (step (PointerUp 0) heldThroughTurn) = [] \<and>
   timers (step (PointerUp 0) heldThroughTurn) = [\<lparr>tid = 2, due = 4500, action = TriggerAI\<rparr>]"
  by code_simp

text \<open>
  Claim C9, amended. Outside an AI turn, a note-off arms the one-shot 2000 ms
  inactivity timer exactly when no key remains held and the AI is enabled, whether or
  not a note has been recorded; the newly armed timer is then the only pending
  inactivity timer, any earlier one having been cancelled. Otherwise the timer queue is
  left as it is. In every reachable state at most one inactivity timer is pending. A
  trigger that fires on an empty buffer does nothing.
\<close>

theorem release_arms_single_timer:
  assumes "reachable s" and "\<not> isAIPlaying s"
  shows "(if activeNotes (releaseNote idx s) = [] \<and> aiEnabled s
          then triggerTimers (releaseNote idx s) =
                 [\<lparr>tid = nextTimerId s, due = clock s + 2000, action = TriggerAI\<rparr>]
          else timers (releaseNote idx s) = timers s) \<and>
         (reachable u \<longrightarrow> length (triggerTimers u) \<le> 1) \<and>
         (userNotes u = [] \<longrightarrow> triggerAIResponse u = u)"
proof -
  have wf: "timersWf s" using reachable_Inv[OF assms(1)] by (simp add: Inv_def)
  have b: "reachable u \<longrightarrow> length (triggerTimers u) \<le> 1"
    using reachable_Inv[of u] triggerTimers_le1[of u] by (simp add: Inv_def)
  have c: "userNotes u = [] \<longrightarrow> triggerAIResponse u = u"
    using triggerAIResponse_noop[of u] by blast
  show ?thesis using releaseNote_arms[OF wf assms(2)] b c by simp
qed

theorem release_arms_single_timer_witness:
  "\<not> isAIPlaying twoNotesPlayed \<and>
   triggerTimers twoNotesPlayed = [\<lparr>tid = 1, due = 2000, action = TriggerAI\<rparr>] \<and>
   triggerTimers (releaseNote (Some 4) twoNotesPlayed) = [\<lparr>tid = 2, due = 2000, action = TriggerAI\<rparr>]"
proof -
  have p: "\<not> isAIPlaying twoNotesPlayed" by code_simp
  have v: "triggerTimers twoNotesPlayed = [\<lparr>tid = 1, due = 2000, action = TriggerAI\<rparr>]"
    "activeNotes (releaseNote (Some 4) twoNotesPlayed) = []" "aiEnabled twoNotesPlayed"
    "nextTimerId twoNotesPlayed = 2" "clock twoNotesPlayed = 0"
    by code_simp+
  show ?thesis
    using release_arms_single_timer[OF reachable_examples(2) p, of "Some 4" twoNotesPlayed] p v
    by simp
qed

section \<open>Switching the AI off during a turn\<close>

lemma aiEnabled_runAction: "aiEnabled (runAction a s) = aiEnabled s"
  by (cases a) (simp_all add: runAction_def flags_triggerAIResponse flags_playGenerated flags_resetTurn)

lemma aiEnabled_step: "e \<noteq> ToggleChange (\<not> aiEnabled s) \<Longrightarrow> aiEnabled (step e s) = aiEnabled s"
  by (cases e)
     (auto simp add: step_def handleKeyDown_def handleKeyUp_def flags_playNote flags_releaseNote
        flags_window_pointerup flags_aiToggle_change fireTimer_def aiEnabled_runAction flags_resume
        split: option.splits)

lemma step_off:
  assumes "\<not> aiEnabled s" and "e \<noteq> ToggleChange True"
  shows "modelCalls (step e s) = modelCalls s \<and> \<not> aiEnabled (step e s)"
proof -
  have "e \<noteq> ToggleChange (\<not> aiEnabled s)" using assms by simp
  then have "\<not> aiEnabled (step e s)" using aiEnabled_step[of e s] assms(1) by simp
  then show ?thesis using step_turn_start[of e s] assms(1) by blast
qed

lemma run_off:
  "\<not> aiEnabled s \<Longrightarrow> ToggleChange True \<notin> set es \<Longrightarrow>
     modelCalls (run es s) = modelCalls s \<and> \<not> aiEnabled (run es s)"
proof (induction es arbitrary: s)
  case Nil
  then show ?case by (simp add: run_Nil)
next
  case (Cons e es)
  have e: "e \<noteq> ToggleChange True" and es: "ToggleChange True \<notin> set es" using Cons.prems(2) by auto
  from step_off[OF Cons.prems(1) e] Cons.IH[OF _ es, of "step e s"]
  show ?case by (simp add: run_Cons)
qed

lemma toggle_off_keeps:
  assumes "timersWf s"
  shows "filter (\<lambda>t. action t \<noteq> TriggerAI) (timers (aiToggle_change False s)) =
         filter (\<lambda>t. action t \<noteq> TriggerAI) (timers s)"
  using assms unfolding timersWf_def aiToggle_change_def clearTimeout_def setStatus_def Let_def
  by (auto split: option.splits intro!: filter_cong)

lemma playGenerated_toggle:
  "playGenerated n d (s\<lparr>aiEnabled := b\<rparr>) = (playGenerated n d s)\<lparr>aiEnabled := b\<rparr>"
  by (simp add: playGenerated_def playNoteWithDuration_def clearTimeout_def setTimeout_def Let_def
      split: option.splits)

text \<open>
  Claim C6. Switching the AI off during an AI turn leaves the turn under way: the
  call awaiting its answer, the playback timers and the end-of-turn timer all stay as
  they are (only a pending inactivity timer is cancelled); a playback callback does
  the same with the AI off as with it on, and the end-of-turn callback ends the turn.
  From then on, whatever happens short of switching the AI on again, the AI stays off
  and the model is not called: no new turn starts, recorded notes or not.
\<close>

theorem toggle_off_finishes_turn:
  assumes "reachable s" and "isAIPlaying s"
  shows "isAIPlaying (step (ToggleChange False) s) \<and>
         inFlight (step (ToggleChange False) s) = inFlight s \<and>
         filter (\<lambda>t. action t \<noteq> TriggerAI) (timers (step (ToggleChange False) s)) =
           filter (\<lambda>t. action t \<noteq> TriggerAI) (timers s) \<and>
         runAction (PlayGenerated n d) (u\<lparr>aiEnabled := False\<rparr>) =
           (runAction (PlayGenerated n d) u)\<lparr>aiEnabled := False\<rparr> \<and>
         \<not> isAIPlaying (runAction ResetTurn (u\<lparr>aiEnabled := False\<rparr>)) \<and>
         (\<forall>es. ToggleChange True \<notin> set es \<longrightarrow>
            modelCalls (run es (step (ToggleChange False) s)) = modelCalls s \<and>
            \<not> aiEnabled (run es (step (ToggleChange False) s)))"
proof -
  have wf: "timersWf s" using reachable_Inv[OF assms(1)] by (simp add: Inv_def)
  have st: "step (ToggleChange False) s = aiToggle_change False s" by (simp add: step_def)
  have off: "\<not> aiEnabled (step (ToggleChange False) s)"
    and mc: "modelCalls (step (ToggleChange False) s) = modelCalls s"
    unfolding st by (simp_all add: flags_aiToggle_change)
  have a: "isAIPlaying (step (ToggleChange False) s)" "inFlight (step (ToggleChange False) s) = inFlight s"
    unfolding st using assms(2) by (simp_all add: flags_aiToggle_change)
  have b: "filter (\<lambda>t. action t \<noteq> TriggerAI) (timers (step (ToggleChange False) s)) =
           filter (\<lambda>t. action t \<noteq> TriggerAI) (timers s)"
    unfolding st using toggle_off_keeps[OF wf] .
  have c: "runAction (PlayGenerated n d) (u\<lparr>aiEnabled := False\<rparr>) =
           (runAction (PlayGenerated n d) u)\<lparr>aiEnabled := False\<rparr>"
    by (simp add: runAction_def playGenerated_toggle)
  have d: "\<not> isAIPlaying (runAction ResetTurn (u\<lparr>aiEnabled := False\<rparr>))"
    by (simp add: runAction_def flags_resetTurn)
  have e: "\<forall>es. ToggleChange True \<notin> set es \<longrightarrow>
            modelCalls (run es (step (ToggleChange False) s)) = modelCalls s \<and>
            \<not> aiEnabled (run es (step (ToggleChange False) s))"
    using run_off[OF off] mc by simp
  show ?thesis using a b c d e by blast
qed

theorem toggle_off_finishes_turn_witness:
  "isAIPlaying replyScheduled \<and>
   timers (step (ToggleChange False) replyScheduled) = timers replyScheduled \<and>
   \<not> isAIPlaying offAfterTurn \<and> userNotes offAfterTurn \<noteq> [] \<and>
   modelCalls offAfterTurn = modelCalls replyScheduled \<and> \<not> aiEnabled offAfterTurn"
proof -
  have r: "reachable replyScheduled"
    unfolding replyScheduled_def using reachable_run[OF reachable_examples(1), of "[ModelReturn (Inr twoNoteReply)]"]
    by (simp add: run_Cons run_Nil)
  have p: "isAIPlaying replyScheduled" by code_simp
  have v: "timers (step (ToggleChange False) replyScheduled) = timers replyScheduled"
    "\<not> isAIPlaying offAfterTurn" "userNotes offAfterTurn \<noteq> []"
    by code_simp+
  have es: "ToggleChange True \<notin> set [Advance 500, TimerFire 1, TimerFire 2, Advance 1000, TimerFire 3,
          KeyDown ''a'' False, KeyUp ''a'', Advance 5000, TimerFire 0, TimerFire 6]"
    by simp
  from toggle_off_finishes_turn[OF r p]
  have "\<forall>es. ToggleChange True \<notin> set es \<longrightarrow>
            modelCalls (run es (step (ToggleChange False) replyScheduled)) = modelCalls replyScheduled \<and>
            \<not> aiEnabled (run es (step (ToggleChange False) replyScheduled))"
    by blast
  from this[rule_format, OF es]
  have "modelCalls offAfterTurn = modelCalls replyScheduled \<and> \<not> aiEnabled offAfterTurn"
    by (simp add: offAfterTurn_def)
  then show ?thesis using p v by simp
qed

end
